theory Spec2Isabelle
  imports Complex_Main "HOL-Library.Sublist" "HOL-Library.Log_Nat" "HOL-Library.AList"
begin

chapter \<open>Covenant-section extraction: the embedding\<close>

text \<open>
  The repository holds two extractors. The line-window extractor lives in
  \<^verbatim>\<open>src/covenant_extractor/extractor.py\<close> and \<^verbatim>\<open>regex_patterns.py\<close>; the span-based
  extractor lives in \<^verbatim>\<open>covenant-extraction/src/regex_extractor.py\<close>. Every definition
  below is the translation of one Python function, under the name it has there (a leading
  underscore is dropped).

  Python strings are sequences of code points. A \<^typ>\<open>char\<close> stands for one code point
  below 256 (Latin-1), so the model covers exactly the texts made of such code points; the
  character classes below are those of Python 3 on that range.
\<close>

section \<open>Strings\<close>

text \<open>\<^verbatim>\<open>str.isspace\<close>, also the class \<^verbatim>\<open>\s\<close> of \<^verbatim>\<open>re\<close> on \<^verbatim>\<open>str\<close> patterns: code points
  9 to 13, 28 to 32, 133 and 160.\<close>

definition isspace :: "char \<Rightarrow> bool" where
  "isspace c = (let n = (of_char c :: nat) in
     (9 \<le> n \<and> n \<le> 13) \<or> (28 \<le> n \<and> n \<le> 32) \<or> n = 133 \<or> n = 160)"

text \<open>\<^verbatim>\<open>str.isupper\<close> on one character: \<^verbatim>\<open>A\<close> to \<^verbatim>\<open>Z\<close> and the Latin-1 capitals
  192 to 222 without the multiplication sign 215.\<close>

definition isupper :: "char \<Rightarrow> bool" where
  "isupper c = (let n = (of_char c :: nat) in
     (65 \<le> n \<and> n \<le> 90) \<or> (192 \<le> n \<and> n \<le> 222 \<and> n \<noteq> 215))"

text \<open>The ASCII capitals and small letters.\<close>

definition is_ascii_upper :: "char \<Rightarrow> bool" where
  "is_ascii_upper c = (let n = (of_char c :: nat) in 65 \<le> n \<and> n \<le> 90)"

definition is_ascii_lower :: "char \<Rightarrow> bool" where
  "is_ascii_lower c = (let n = (of_char c :: nat) in 97 \<le> n \<and> n \<le> 122)"

text \<open>\<^verbatim>\<open>str.lower\<close>: every capital moves up by 32, nothing else changes.\<close>

definition lower_chr :: "char \<Rightarrow> char" where
  "lower_chr c = (if isupper c then char_of ((of_char c :: nat) + 32) else c)"

definition lower :: "string \<Rightarrow> string" where
  "lower s = map lower_chr s"

text \<open>\<^verbatim>\<open>str.strip()\<close> removes the whitespace at both ends.\<close>

definition strip :: "string \<Rightarrow> string" where
  "strip s = rev (dropWhile isspace (rev (dropWhile isspace s)))"

text \<open>\<^verbatim>\<open>str.replace(old, new)\<close> for one-character arguments.\<close>

definition replace_chr :: "char \<Rightarrow> char \<Rightarrow> string \<Rightarrow> string" where
  "replace_chr old new s = map (\<lambda>c. if c = old then new else c) s"

text \<open>\<^verbatim>\<open>re.sub(r"\s+", " ", s)\<close>: every maximal run of whitespace becomes one space.\<close>

function sub_ws :: "string \<Rightarrow> string" where
  "sub_ws [] = []"
| "sub_ws (c # cs) =
     (if isspace c then CHR '' '' # sub_ws (dropWhile isspace cs) else c # sub_ws cs)"
  by pat_completeness auto
termination
  by (relation "measure length") (auto simp: length_dropWhile_le less_Suc_eq_le)

text \<open>A string is trimmed on the left when it does not begin with whitespace, and on the
  right when it does not end with it.\<close>

definition ltrimmed :: "string \<Rightarrow> bool" where
  "ltrimmed s = (case s of [] \<Rightarrow> True | c # _ \<Rightarrow> \<not> isspace c)"

definition rtrimmed :: "string \<Rightarrow> bool" where
  "rtrimmed s = ltrimmed (rev s)"

text \<open>The exceptions that the modelled functions can raise.\<close>

datatype error = ValueError string | KeyError string | ExternalError string

section \<open>Floating point\<close>

text \<open>
  A Python \<^verbatim>\<open>float\<close> is an IEEE 754 double. Every finite double is a rational number,
  and division, multiplication and addition return the double nearest to the exact result,
  a tie going to the double whose last mantissa bit is even. The numbers that occur here
  are far from the overflow and underflow thresholds, so a double is a rational with a
  mantissa of 53 bits and \<open>fl\<close> rounds a rational to the nearest one.
\<close>

text \<open>Rounding to the nearest integer, ties to even.\<close>

definition round_half_even :: "rat \<Rightarrow> int" where
  "round_half_even x = (let f = \<lfloor>x\<rfloor>; r = x - of_int f in
     if r < 1 / 2 then f else if r > 1 / 2 then f + 1 else if even f then f else f + 1)"

text \<open>The binary exponent \<open>\<lfloor>log\<^sub>2 x\<rfloor>\<close> of a positive rational \<open>p / q\<close>: the difference of
  the bit lengths of \<open>p\<close> and \<open>q\<close>, or one less.\<close>

definition float_exponent :: "rat \<Rightarrow> int" where
  "float_exponent x = (case quotient_of x of (p, q) \<Rightarrow>
     let d = bitlen p - bitlen q in if 2 powi d \<le> x then d else d - 1)"

definition fl :: "rat \<Rightarrow> rat" where
  "fl x = (if x = 0 then 0 else
     let u = 2 powi (float_exponent \<bar>x\<bar> - 52) in of_int (round_half_even (x / u)) * u)"

text \<open>\<^verbatim>\<open>float(n)\<close> for an integer, \<^verbatim>\<open>a / b\<close> for two integers (true division is correctly
  rounded), and \<^verbatim>\<open>*\<close> and \<^verbatim>\<open>+\<close> on two floats. A literal such as \<^verbatim>\<open>0.6\<close> is
  \<open>fl (6 / 10)\<close>.\<close>

definition float_of_int :: "int \<Rightarrow> rat" where
  "float_of_int n = fl (of_int n)"

definition truediv :: "int \<Rightarrow> int \<Rightarrow> rat" where
  "truediv a b = fl (of_int a / of_int b)"

definition fmul :: "rat \<Rightarrow> rat \<Rightarrow> rat" where
  "fmul a b = fl (a * b)"

definition fadd :: "rat \<Rightarrow> rat \<Rightarrow> rat" where
  "fadd a b = fl (a + b)"

section \<open>Target vocabulary (\<^verbatim>\<open>regex_patterns.py\<close>)\<close>

text \<open>
  \<^verbatim>\<open>
  def normalize_target(name: str) -> str:
      return re.sub(r"\s+", " ", name.strip().lower().replace("-", "-")).strip()
  \<close>
\<close>

definition normalize_target :: "string \<Rightarrow> string" where
  "normalize_target name =
     strip (sub_ws (replace_chr CHR ''-'' CHR ''-'' (lower (strip name))))"

section \<open>Regular expressions\<close>

text \<open>
  The line-window extractor only asks whether a pattern matches somewhere
  (\<^verbatim>\<open>pattern.search(line)\<close> and \<^verbatim>\<open>re.fullmatch\<close> used as conditions), and its patterns use
  character classes, literals, grouping, alternation, \<^verbatim>\<open>?\<close>, \<^verbatim>\<open>*\<close>, \<^verbatim>\<open>+\<close> and the
  assertions \<^verbatim>\<open>^\<close>, \<^verbatim>\<open>$\<close> and \<^verbatim>\<open>\b\<close>. For such patterns a backtracking matcher finds a
  match exactly when the pattern, read as a language, has one, so the patterns are embedded
  as terms of the datatype \<open>regex\<close> and \<open>ends r s i\<close> lists the positions at which a match
  of \<open>r\<close> that starts at position \<open>i\<close> of \<open>s\<close> can end.
\<close>

text \<open>The sets of characters that the patterns of the repository use: a literal
  character, a literal under the flag \<^verbatim>\<open>(?i)\<close> (below 256 two characters then match when
  their lower-case forms agree), \<^verbatim>\<open>\s\<close>, \<^verbatim>\<open>\d\<close>, an explicit list, \<^verbatim>\<open>[A-Z]\<close> under
  \<^verbatim>\<open>(?i)\<close> (the 52 ASCII letters), \<^verbatim>\<open>[^\n]\<close> (also the dot without the flag \<^verbatim>\<open>(?s)\<close>),
  \<^verbatim>\<open>[\s\-]\<close>, \<^verbatim>\<open>[A-Z0-9 &/\-_,\.\(\)]\<close>, and \<^verbatim>\<open>[A-Z]\<close> without a flag.\<close>

datatype char_class =
    Literal char
  | LiteralNoCase char
  | Whitespace
  | Digit
  | AnyOf string
  | LetterNoCase
  | NotNewline
  | WhitespaceOrHyphen
  | CapsClass
  | CapitalAZ

definition isdigit :: "char \<Rightarrow> bool" where
  "isdigit c = (let n = (of_char c :: nat) in 48 \<le> n \<and> n \<le> 57)"

definition ascii_letter :: "char \<Rightarrow> bool" where
  "ascii_letter c = (let n = (of_char c :: nat) in (65 \<le> n \<and> n \<le> 90) \<or> (97 \<le> n \<and> n \<le> 122))"

definition caps_class :: "char \<Rightarrow> bool" where
  "caps_class c = (let n = (of_char c :: nat) in
     (65 \<le> n \<and> n \<le> 90) \<or> (48 \<le> n \<and> n \<le> 57) \<or> c \<in> set '' &/-_,.()'')"

fun class_matches :: "char_class \<Rightarrow> char \<Rightarrow> bool" where
  "class_matches (Literal c) d = (d = c)"
| "class_matches (LiteralNoCase c) d = (lower_chr d = lower_chr c)"
| "class_matches Whitespace d = isspace d"
| "class_matches Digit d = isdigit d"
| "class_matches (AnyOf cs) d = (d \<in> set cs)"
| "class_matches LetterNoCase d = ascii_letter d"
| "class_matches NotNewline d = (d \<noteq> CHR 0x0A)"
| "class_matches WhitespaceOrHyphen d = (if isspace d then True else d = CHR ''-'')"
| "class_matches CapsClass d = caps_class d"
| "class_matches CapitalAZ d = is_ascii_upper d"

datatype regex =
    Chr char_class
  | Bol
  | Eol
  | WordB
  | Eps
  | Seq regex regex
  | Alt regex regex
  | Star regex

definition Opt :: "regex \<Rightarrow> regex" where
  "Opt r = Alt r Eps"

definition Plus :: "regex \<Rightarrow> regex" where
  "Plus r = Seq r (Star r)"

fun Seqs :: "regex list \<Rightarrow> regex" where
  "Seqs [] = Eps"
| "Seqs [r] = r"
| "Seqs (r # rs) = Seq r (Seqs rs)"

fun Alts :: "regex list \<Rightarrow> regex" where
  "Alts [] = Chr (AnyOf [])"
| "Alts [r] = r"
| "Alts (r # rs) = Alt r (Alts rs)"

text \<open>The class \<^verbatim>\<open>\w\<close> on the code points below 256: digits, letters, the underscore, and
  the Latin-1 letters and numeric signs that \<^verbatim>\<open>str.isalnum\<close> accepts.\<close>

definition isword :: "char \<Rightarrow> bool" where
  "isword c = (let n = (of_char c :: nat) in
     (48 \<le> n \<and> n \<le> 57) \<or> (65 \<le> n \<and> n \<le> 90) \<or> n = 95 \<or> (97 \<le> n \<and> n \<le> 122) \<or>
     n = 170 \<or> n = 178 \<or> n = 179 \<or> n = 181 \<or> n = 185 \<or> n = 186 \<or>
     (188 \<le> n \<and> n \<le> 190) \<or> (192 \<le> n \<and> n \<noteq> 215 \<and> n \<noteq> 247))"

text \<open>With the flag \<^verbatim>\<open>(?m)\<close>, \<^verbatim>\<open>^\<close> holds at the start of the string and after a line
  feed, and \<^verbatim>\<open>$\<close> at the end of the string and before a line feed; \<^verbatim>\<open>\b\<close> holds where
  exactly one of the two neighbours is a word character.\<close>

definition at_bol :: "string \<Rightarrow> nat \<Rightarrow> bool" where
  "at_bol s i = (if i = 0 then True else if i \<le> length s then s ! (i - 1) = CHR 0x0A else False)"

definition at_eol :: "string \<Rightarrow> nat \<Rightarrow> bool" where
  "at_eol s i = (if i = length s then True else if i < length s then s ! i = CHR 0x0A else False)"

definition word_before :: "string \<Rightarrow> nat \<Rightarrow> bool" where
  "word_before s i = (if 0 < i then (if i \<le> length s then isword (s ! (i - 1)) else False) else False)"

definition word_after :: "string \<Rightarrow> nat \<Rightarrow> bool" where
  "word_after s i = (if i < length s then isword (s ! i) else False)"

definition at_word_boundary :: "string \<Rightarrow> nat \<Rightarrow> bool" where
  "at_word_boundary s i = (word_before s i \<noteq> word_after s i)"

text \<open>The positions reachable by repeating a step, found breadth first: \<open>seen\<close> holds the
  positions found so far and \<open>frontier\<close> those among them whose successors are still to be
  added. A string of length \<open>n\<close> has \<open>n + 1\<close> positions and every round that does not
  end the search adds one, so \<open>n + 1\<close> rounds suffice.\<close>

fun star_steps :: "(nat \<Rightarrow> nat list) \<Rightarrow> nat \<Rightarrow> nat list \<Rightarrow> nat list \<Rightarrow> nat list" where
  "star_steps step 0 frontier seen = seen"
| "star_steps step (Suc n) frontier seen =
     (if frontier = [] then seen
      else (let new = filter (\<lambda>j. j \<notin> set seen) (remdups (concat (map step frontier)))
            in star_steps step n new (seen @ new)))"

primrec ends :: "regex \<Rightarrow> string \<Rightarrow> nat \<Rightarrow> nat list" where
  "ends (Chr cls) s i =
     (if i < length s then (if class_matches cls (s ! i) then [Suc i] else []) else [])"
| "ends Bol s i = (if at_bol s i then [i] else [])"
| "ends Eol s i = (if at_eol s i then [i] else [])"
| "ends WordB s i = (if at_word_boundary s i then [i] else [])"
| "ends Eps s i = [i]"
| "ends (Seq a b) s i = remdups (concat (map (ends b s) (ends a s i)))"
| "ends (Alt a b) s i = remdups (ends a s i @ ends b s i)"
| "ends (Star a) s i = star_steps (ends a s) (Suc (length s)) [i] [i]"

text \<open>The meaning of a pattern, stated directly: \<open>rmatches s r i j\<close> holds when \<open>r\<close>
  matches the piece of \<open>s\<close> from position \<open>i\<close> to position \<open>j\<close>. The function \<open>ends\<close>
  computes this relation (lemma \<open>ends_iff_rmatches\<close>).\<close>

inductive rmatches :: "string \<Rightarrow> regex \<Rightarrow> nat \<Rightarrow> nat \<Rightarrow> bool" for s :: string where
  m_Chr: "i < length s \<Longrightarrow> class_matches cls (s ! i) \<Longrightarrow> rmatches s (Chr cls) i (Suc i)"
| m_Bol: "at_bol s i \<Longrightarrow> rmatches s Bol i i"
| m_Eol: "at_eol s i \<Longrightarrow> rmatches s Eol i i"
| m_WordB: "at_word_boundary s i \<Longrightarrow> rmatches s WordB i i"
| m_Eps: "rmatches s Eps i i"
| m_Seq: "rmatches s a i j \<Longrightarrow> rmatches s b j k \<Longrightarrow> rmatches s (Seq a b) i k"
| m_AltL: "rmatches s a i j \<Longrightarrow> rmatches s (Alt a b) i j"
| m_AltR: "rmatches s b i j \<Longrightarrow> rmatches s (Alt a b) i j"
| m_StarNil: "rmatches s (Star a) i i"
| m_StarStep: "rmatches s a i j \<Longrightarrow> rmatches s (Star a) j k \<Longrightarrow> rmatches s (Star a) i k"

inductive_cases rmatches_ChrE: "rmatches s (Chr cls) i j"
inductive_cases rmatches_BolE: "rmatches s Bol i j"
inductive_cases rmatches_EolE: "rmatches s Eol i j"
inductive_cases rmatches_WordBE: "rmatches s WordB i j"
inductive_cases rmatches_EpsE: "rmatches s Eps i j"
inductive_cases rmatches_SeqE: "rmatches s (Seq a b) i j"
inductive_cases rmatches_AltE: "rmatches s (Alt a b) i j"

text \<open>\<^verbatim>\<open>pattern.search(s)\<close> and \<^verbatim>\<open>re.fullmatch(pattern, s)\<close>, as conditions.\<close>

definition search :: "regex \<Rightarrow> string \<Rightarrow> bool" where
  "search r s = (\<exists>i\<in>set [0..<Suc (length s)]. ends r s i \<noteq> [])"

definition fullmatch :: "regex \<Rightarrow> string \<Rightarrow> bool" where
  "fullmatch r s = (length s \<in> set (ends r s 0))"

text \<open>A literal string under the flag \<^verbatim>\<open>(?i)\<close>.\<close>

definition lits_i :: "string \<Rightarrow> regex" where
  "lits_i s = Seqs (map (\<lambda>c. Chr (LiteralNoCase c)) s)"

definition ws :: regex where
  "ws = Chr Whitespace"

definition digit :: regex where
  "digit = Chr Digit"

text \<open>\<^verbatim>\<open>Section\s+\d+(?:\.\d+)*\<close> under \<^verbatim>\<open>(?i)\<close>, shared by the two patterns below.\<close>

definition section_number :: regex where
  "section_number =
     Seqs [lits_i ''Section'', Plus ws, Plus digit, Star (Seq (Chr (Literal CHR ''.'')) (Plus digit))]"

section \<open>The heading detector (\<^verbatim>\<open>regex_patterns.py\<close>)\<close>

text \<open>
  \<^verbatim>\<open>
  SECTION_HEADING_PATTERN = re.compile(
      r"(?mi)^\s*(?:Section\s+\d+(?:\.\d+)*)\s+[A-Z][^\n]*$"
  )
  \<close>
  Under \<^verbatim>\<open>(?i)\<close> the class \<^verbatim>\<open>[A-Z]\<close> matches the 52 ASCII letters of either case.
\<close>

definition SECTION_HEADING_PATTERN :: regex where
  "SECTION_HEADING_PATTERN =
     Seqs [Bol, Star ws, section_number, Plus ws, Chr LetterNoCase, Star (Chr NotNewline), Eol]"

text \<open>\<^verbatim>\<open>str.split()\<close> without argument: the maximal runs of characters that are not
  whitespace.\<close>

function split_ws :: "string \<Rightarrow> string list" where
  "split_ws s =
     (case dropWhile isspace s of
        [] \<Rightarrow> []
      | c # cs \<Rightarrow> takeWhile (\<lambda>x. \<not> isspace x) (c # cs)
                   # split_ws (dropWhile (\<lambda>x. \<not> isspace x) cs))"
  by pat_completeness auto
termination
proof (relation "measure length")
  fix s c cs
  assume "dropWhile isspace s = c # cs"
  then have "length (c # cs) \<le> length s" by (metis length_dropWhile_le)
  moreover have "length (dropWhile (\<lambda>x. \<not> isspace x) cs) \<le> length cs"
    by (rule length_dropWhile_le)
  ultimately show "(dropWhile (\<lambda>x. \<not> isspace x) cs, s) \<in> measure length" by simp
qed simp

declare split_ws.simps [simp del]

text \<open>
  \<^verbatim>\<open>
  def is_heading_line(line: str) -> bool:
      if SECTION_HEADING_PATTERN.search(line):
          return True
      stripped = line.strip()
      if len(stripped) >= 8 and re.fullmatch(r"[A-Z0-9 &/\-_,\.\(\)]+", stripped):
          return True
      if len(stripped) <= 120:
          words = stripped.split()
          caps = sum(1 for w in words if w[:1].isupper())
          if len(words) >= 2 and caps / max(1, len(words)) > 0.6:
              return True
      return False
  \<close>
  A word is not empty, so \<^verbatim>\<open>w[:1].isupper()\<close> asks whether its first character is a
  capital. Python's \<^verbatim>\<open>a and b\<close> evaluates \<open>b\<close> only when \<open>a\<close> holds; it is written
  \<open>if a then b else False\<close>.
\<close>

definition is_heading_line :: "string \<Rightarrow> bool" where
  "is_heading_line line =
     (if search SECTION_HEADING_PATTERN line then True
      else let stripped = strip line in
        if (if length stripped \<ge> 8 then fullmatch (Plus (Chr CapsClass)) stripped else False)
        then True
        else if length stripped \<le> 120 then
          (let words = split_ws stripped;
               caps = length (filter (\<lambda>w. isupper (hd w)) words)
           in if (if length words \<ge> 2
                  then truediv (int caps) (max 1 (int (length words))) > fl (6 / 10)
                  else False)
              then True
              else False)
        else False)"

text \<open>
  The three heuristics in the words of the specification, for comparison with the
  function above: an enumerator \<^verbatim>\<open>Section <integer>[.<integer>...]\<close> followed by a
  capitalized word (the pattern of the source with \<^verbatim>\<open>[A-Z]\<close> read as the capitals it
  names); a trimmed length of at least 8 over capitals, digits, spaces and the
  punctuation \<^verbatim>\<open>& / - _ , . ( )\<close>; at most 120 characters, at least 2 words, and more than
  60% of the words beginning with a capital.
\<close>

definition spec_enumerator :: "string \<Rightarrow> bool" where
  "spec_enumerator line =
     search (Seqs [Bol, Star ws, section_number, Plus ws, Chr CapitalAZ,
                   Star (Chr NotNewline), Eol]) line"

definition spec_all_caps :: "string \<Rightarrow> bool" where
  "spec_all_caps line = (length (strip line) \<ge> 8 \<and> list_all caps_class (strip line))"

definition spec_title_case :: "string \<Rightarrow> bool" where
  "spec_title_case line =
     (let words = split_ws (strip line) in
      length (strip line) \<le> 120 \<and> length words \<ge> 2 \<and>
      3 * length words < 5 * length (filter (\<lambda>w. isupper (hd w)) words))"

definition spec_is_heading :: "string \<Rightarrow> bool" where
  "spec_is_heading line = (spec_enumerator line \<or> spec_all_caps line \<or> spec_title_case line)"

section \<open>The line-window extractor (\<^verbatim>\<open>regex_patterns.py\<close>, \<^verbatim>\<open>extractor.py\<close>)\<close>

subsection \<open>Target patterns\<close>

text \<open>The module-level dictionary \<^verbatim>\<open>TARGET_SYNONYMS\<close>.\<close>

definition TARGET_SYNONYMS :: "(string \<times> string list) list" where
  "TARGET_SYNONYMS =
     [(''restricted payments'',
         [''restricted payment'',
          ''restricted payments'',
          ''limitation on restricted payments'',
          ''limitations on restricted payments'',
          ''limitations on dividends and distributions'',
          ''restricted dividends'']),
      (''change of control'',
         [''change of control'',
          ''change-of-control'',
          ''change in control'',
          ''change-of-control provision''])]"

text \<open>\<^verbatim>\<open>re.split(r"\s+", s)\<close>: the pieces between the maximal runs of whitespace, empty
  pieces at the ends included.\<close>

function re_split_ws :: "string \<Rightarrow> string list" where
  "re_split_ws [] = [[]]"
| "re_split_ws (c # cs) =
     (if isspace c then [] # re_split_ws (dropWhile isspace cs)
      else (case re_split_ws cs of
              [] \<Rightarrow> [[c]]
            | t # ts \<Rightarrow> (c # t) # ts))"
  by pat_completeness auto
termination
  by (relation "measure length") (auto simp: length_dropWhile_le less_Suc_eq_le)

text \<open>
  \<^verbatim>\<open>
  def _synonym_to_regex(s: str) -> str:
      s = s.strip()
      tokens = re.split(r"\s+", s)
      escaped = [re.escape(t) for t in tokens]
      return r"[\s\-]+".join(escaped)
  \<close>
  An escaped token matches itself, and the pattern is later compiled with \<^verbatim>\<open>(?i)\<close>.
\<close>

fun join_regex :: "regex \<Rightarrow> regex list \<Rightarrow> regex" where
  "join_regex sep [] = Eps"
| "join_regex sep [r] = r"
| "join_regex sep (r # rs) = Seq r (Seq sep (join_regex sep rs))"

definition synonym_to_regex :: "string \<Rightarrow> regex" where
  "synonym_to_regex s =
     (let tokens = re_split_ws (strip s);
          escaped = map lits_i tokens
      in join_regex (Plus (Chr WhitespaceOrHyphen)) escaped)"

text \<open>
  \<^verbatim>\<open>
  name_group = "(?:" + "|".join(parts) + ")"
  pattern = (
      r"(?mi)"
      r"^(?:\s*Section\s+\d+(?:\.\d+)*)?\s*(?:[:\-\.])?\s*" + name_group + r"\b.*$"
  )
  \<close>
  Without the flag \<^verbatim>\<open>(?s)\<close> the dot matches every character but the line feed.
\<close>

definition target_pattern :: "string list \<Rightarrow> regex" where
  "target_pattern synonyms =
     (let parts = map synonym_to_regex synonyms;
          name_group = Alts parts
      in Seqs [Bol, Opt (Seq (Star ws) section_number), Star ws,
               Opt (Chr (AnyOf '':-.'')), Star ws,
               name_group, WordB, Star (Chr NotNewline), Eol])"

text \<open>
  \<^verbatim>\<open>
  compiled: Dict[str, re.Pattern] = {}
  for raw in targets:
      canonical = normalize_target(raw)
      synonyms = TARGET_SYNONYMS.get(canonical, [canonical])
      ...
      compiled[canonical] = re.compile(pattern)
  \<close>
  A Python dictionary keeps the order of first insertion, as \<^const>\<open>AList.update\<close> does.
\<close>

definition synonyms_for :: "string \<Rightarrow> string list" where
  "synonyms_for canonical =
     (case map_of TARGET_SYNONYMS canonical of None \<Rightarrow> [canonical] | Some syns \<Rightarrow> syns)"

fun build_target_regexes_from :: "(string \<times> regex) list \<Rightarrow> string list \<Rightarrow> (string \<times> regex) list" where
  "build_target_regexes_from compiled [] = compiled"
| "build_target_regexes_from compiled (raw # targets) =
     (let canonical = normalize_target raw;
          synonyms = synonyms_for canonical
      in build_target_regexes_from
           (AList.update canonical (target_pattern synonyms) compiled) targets)"

definition build_target_regexes :: "string list \<Rightarrow> (string \<times> regex) list" where
  "build_target_regexes targets = build_target_regexes_from [] targets"

subsection \<open>Lines and headings\<close>

text \<open>\<^verbatim>\<open>str.splitlines()\<close>: on the code points below 256 a line ends at a line feed, a
  carriage return (with a line feed that follows it), a vertical tab, a form feed, one of
  the separators 28 to 30, or the next-line character 133; the text after the last line
  end is a line when it is not empty.\<close>

definition is_linebreak :: "char \<Rightarrow> bool" where
  "is_linebreak c = (let n = (of_char c :: nat) in
     (10 \<le> n \<and> n \<le> 13) \<or> (28 \<le> n \<and> n \<le> 30) \<or> n = 133)"

fun splitlines_from :: "string \<Rightarrow> string \<Rightarrow> string list" where
  "splitlines_from cur [] = (if cur = [] then [] else [cur])"
| "splitlines_from cur (c # cs) =
     (if c = CHR 0x0D \<and> cs \<noteq> [] \<and> hd cs = CHR 0x0A then cur # splitlines_from [] (tl cs)
      else if is_linebreak c then cur # splitlines_from [] cs
      else splitlines_from (cur @ [c]) cs)"

definition split_lines :: "string \<Rightarrow> string list" where
  "split_lines text = splitlines_from [] text"

text \<open>\<^verbatim>\<open>enumerate(lines)\<close>, and \<^verbatim>\<open>_find_heading_indices\<close>.\<close>

definition enumerate_lines :: "string list \<Rightarrow> (nat \<times> string) list" where
  "enumerate_lines lines = zip [0..<length lines] lines"

definition find_heading_indices :: "string list \<Rightarrow> int list" where
  "find_heading_indices lines =
     map (\<lambda>(index, line). int index) (filter (\<lambda>(index, line). is_heading_line line) (enumerate_lines lines))"

text \<open>
  \<^verbatim>\<open>
  start_index = candidate_start_index
  end_index = min(len(lines) - 1, start_index + max_section_lines)
  for next_heading in heading_indices:
      if next_heading > start_index:
          end_index = min(end_index, next_heading - 1)
          break
  return start_index, end_index
  \<close>
\<close>

fun next_heading_bound :: "int list \<Rightarrow> int \<Rightarrow> int \<Rightarrow> int" where
  "next_heading_bound [] start_index end_index = end_index"
| "next_heading_bound (next_heading # rest) start_index end_index =
     (if next_heading > start_index then min end_index (next_heading - 1)
      else next_heading_bound rest start_index end_index)"

definition find_section_bounds :: "string list \<Rightarrow> int \<Rightarrow> int list \<Rightarrow> int \<Rightarrow> int \<times> int" where
  "find_section_bounds lines candidate_start_index heading_indices max_section_lines =
     (let start_index = candidate_start_index;
          end_index = min (int (length lines) - 1) (start_index + max_section_lines)
      in (start_index, next_heading_bound heading_indices start_index end_index))"

subsection \<open>Extraction\<close>

text \<open>The dataclass \<^verbatim>\<open>CovenantSection\<close> of \<^verbatim>\<open>extractor.py\<close>, with the fields \<^verbatim>\<open>target\<close>,
  \<^verbatim>\<open>title\<close>, \<^verbatim>\<open>start_line\<close>, \<^verbatim>\<open>end_line\<close> and \<^verbatim>\<open>text\<close>.\<close>

record LineCovenantSection =
  ls_target :: string
  ls_title :: string
  start_line :: int
  end_line :: int
  ls_text :: string

text \<open>A list slice \<^verbatim>\<open>xs[a:b]\<close> with Python's rule for negative indices, and
  \<^verbatim>\<open>"\n".join\<close>.\<close>

definition slice_index :: "nat \<Rightarrow> int \<Rightarrow> nat" where
  "slice_index n i = (if i < 0 then nat (max 0 (int n + i)) else min (nat i) n)"

definition py_slice :: "'a list \<Rightarrow> int \<Rightarrow> int \<Rightarrow> 'a list" where
  "py_slice xs a b =
     take (slice_index (length xs) b - slice_index (length xs) a)
          (drop (slice_index (length xs) a) xs)"

fun join_lines :: "string list \<Rightarrow> string" where
  "join_lines [] = []"
| "join_lines [l] = l"
| "join_lines (l # ls) = l @ CHR 0x0A # join_lines ls"

text \<open>
  The section that a matching line yields:
  \<^verbatim>\<open>
  start_index, end_index = _find_section_bounds(
      lines, line_index, heading_indices, max_section_lines=max_section_lines)
  title_text = lines[line_index].strip()
  section_text = "\n".join(lines[start_index : end_index + 1]).strip()
  CovenantSection(target=canonical, title=title_text, start_line=start_index + 1,
                  end_line=end_index + 1, text=section_text)
  \<close>
\<close>

definition line_section ::
  "string list \<Rightarrow> int list \<Rightarrow> int \<Rightarrow> string \<Rightarrow> nat \<Rightarrow> LineCovenantSection" where
  "line_section lines heading_indices max_section_lines canonical line_index =
     (case find_section_bounds lines (int line_index) heading_indices max_section_lines of
        (start_index, end_index) \<Rightarrow>
          \<lparr>ls_target = canonical,
           ls_title = strip (lines ! line_index),
           start_line = start_index + 1,
           end_line = end_index + 1,
           ls_text = strip (join_lines (py_slice lines start_index (end_index + 1)))\<rparr>)"

type_synonym results = "(string \<times> LineCovenantSection list) list"

text \<open>
  The loop over the lines for one target,
  \<^verbatim>\<open>
  for line_index, line in enumerate(lines):
      if not line.strip():
          continue
      if pattern.search(line):
          ...
          results[canonical].append(CovenantSection(...))
  \<close>
  where \<^verbatim>\<open>results[canonical]\<close> raises \<^verbatim>\<open>KeyError\<close> for a key that the dictionary lacks.
\<close>

fun scan_lines ::
  "regex \<Rightarrow> string list \<Rightarrow> int list \<Rightarrow> int \<Rightarrow> string \<Rightarrow> (nat \<times> string) list \<Rightarrow> results
     \<Rightarrow> error + results" where
  "scan_lines pattern lines heading_indices max_section_lines canonical [] results = Inr results"
| "scan_lines pattern lines heading_indices max_section_lines canonical
     ((line_index, line) # rest) results =
     (if strip line = [] then
        scan_lines pattern lines heading_indices max_section_lines canonical rest results
      else if search pattern line then
        (case map_of results canonical of
           None \<Rightarrow> Inl (KeyError canonical)
         | Some found \<Rightarrow>
             scan_lines pattern lines heading_indices max_section_lines canonical rest
               (AList.update canonical
                  (found @ [line_section lines heading_indices max_section_lines canonical line_index])
                  results))
      else scan_lines pattern lines heading_indices max_section_lines canonical rest results)"

text \<open>The loop \<^verbatim>\<open>for canonical, pattern in compiled.items()\<close>.\<close>

fun scan_targets ::
  "string list \<Rightarrow> int list \<Rightarrow> int \<Rightarrow> (string \<times> regex) list \<Rightarrow> results \<Rightarrow> error + results" where
  "scan_targets lines heading_indices max_section_lines [] results = Inr results"
| "scan_targets lines heading_indices max_section_lines ((canonical, pattern) # compiled) results =
     (case scan_lines pattern lines heading_indices max_section_lines canonical
             (enumerate_lines lines) results of
        Inl e \<Rightarrow> Inl e
      | Inr results' \<Rightarrow> scan_targets lines heading_indices max_section_lines compiled results')"

text \<open>\<^verbatim>\<open>results = {normalize_target(t): [] for t in targets}\<close>.\<close>

fun empty_results_from :: "results \<Rightarrow> string list \<Rightarrow> results" where
  "empty_results_from results [] = results"
| "empty_results_from results (t # targets) =
     empty_results_from (AList.update (normalize_target t) [] results) targets"

text \<open>
  \<^verbatim>\<open>extract_covenants_from_text(text, targets, max_section_lines=120)\<close>; the targets are a
  list (the command line passes one), which is read twice.
\<close>

definition extract_covenants_from_text :: "string \<Rightarrow> string list \<Rightarrow> int \<Rightarrow> error + results" where
  "extract_covenants_from_text text targets max_section_lines =
     (let compiled = build_target_regexes targets;
          lines = split_lines text;
          heading_indices = find_heading_indices lines;
          results = empty_results_from [] targets
      in scan_targets lines heading_indices max_section_lines compiled results)"

text \<open>A three-line document without a heading line, its first line naming the target.\<close>

definition example_lines_text :: string where
  "example_lines_text = ''restricted payments'' @ [CHR 0x0A] @ ''a'' @ [CHR 0x0A] @ ''b''"

text \<open>A document whose first and third line name the target.\<close>

definition example_two_text :: string where
  "example_two_text =
     ''Restricted payments'' @ [CHR 0x0A] @ ''a'' @ [CHR 0x0A] @ ''restricted payment covenants''"

text \<open>The lines that yield a section for a pattern, and the sections of one target.\<close>

definition matching_items :: "regex \<Rightarrow> (nat \<times> string) list \<Rightarrow> (nat \<times> string) list" where
  "matching_items pattern items =
     filter (\<lambda>(line_index, line). strip line \<noteq> [] \<and> search pattern line) items"

definition target_sections ::
  "string list \<Rightarrow> int list \<Rightarrow> int \<Rightarrow> string \<Rightarrow> regex \<Rightarrow> LineCovenantSection list" where
  "target_sections lines heading_indices max_section_lines canonical pattern =
     map (\<lambda>(line_index, line). line_section lines heading_indices max_section_lines canonical line_index)
         (matching_items pattern (enumerate_lines lines))"

section \<open>The LLM bridge (\<^verbatim>\<open>extractor.py\<close>)\<close>

text \<open>
  \<^verbatim>\<open>llm_extract_covenants\<close> reads the environment, imports the \<^verbatim>\<open>openai\<close> package, sends
  one request over the network and parses the reply with \<^verbatim>\<open>json.loads\<close>. These belong
  to the world around the program and are the fields of the record \<open>world\<close>: the value of
  \<^verbatim>\<open>os.getenv("OPENAI_API_KEY")\<close>, whether the import succeeds, what the request returns
  (the content of the first choice, or an exception), and the parser (\<open>None\<close> when it
  raises; an object is given with each key once). The function returns the list of the
  network calls it made together with its result, \<open>Inl\<close> for an exception that leaves it.
\<close>

datatype json =
    JNull
  | JBool bool
  | JNumber rat
  | JString string
  | JArray "json list"
  | JObject "(string \<times> json) list"

record chat_request =
  req_api_key :: string
  req_model :: string
  req_targets :: "string list"
  req_text :: string
  req_max_tokens :: int

datatype event = NetworkCall chat_request

record world =
  getenv_OPENAI_API_KEY :: "string option"
  openai_importable :: bool
  chat_completion :: "chat_request \<Rightarrow> string + string option"
  json_loads :: "string \<Rightarrow> json option"

record llm_entry =
  entry_title :: json
  entry_excerpt :: json
  entry_rationale :: json

type_synonym llm_result = "(string \<times> llm_entry) list"

text \<open>Python's truth value of a parsed JSON value.\<close>

fun truthy :: "json \<Rightarrow> bool" where
  "truthy JNull = False"
| "truthy (JBool b) = b"
| "truthy (JNumber n) = (n \<noteq> 0)"
| "truthy (JString s) = (s \<noteq> [])"
| "truthy (JArray xs) = (xs \<noteq> [])"
| "truthy (JObject kvs) = (kvs \<noteq> [])"

text \<open>\<^verbatim>\<open>v.get(key, "") if isinstance(v, dict) else ""\<close>.\<close>

definition get_field :: "json \<Rightarrow> string \<Rightarrow> json" where
  "get_field v key =
     (case v of
        JObject members \<Rightarrow> (case map_of members key of Some x \<Rightarrow> x | None \<Rightarrow> JString [])
      | _ \<Rightarrow> JString [])"

text \<open>
  \<^verbatim>\<open>
  for t in canonical_targets:
      v = data.get(t) or {}
      title = v.get("title", "") if isinstance(v, dict) else ""
      excerpt = v.get("excerpt", "") if isinstance(v, dict) else ""
      rationale = v.get("rationale", "") if isinstance(v, dict) else ""
      result[t] = {"title": title, "excerpt": excerpt, "rationale": rationale}
  \<close>
  When \<^verbatim>\<open>data\<close> is not an object, \<^verbatim>\<open>data.get\<close> raises; the result is then \<open>None\<close>.
\<close>

fun fill_targets :: "json \<Rightarrow> string list \<Rightarrow> llm_result \<Rightarrow> llm_result option" where
  "fill_targets data [] result = Some result"
| "fill_targets data (t # ts) result =
     (case data of
        JObject kvs \<Rightarrow>
          (let v = (case map_of kvs t of
                      Some x \<Rightarrow> if truthy x then x else JObject []
                    | None \<Rightarrow> JObject [])
           in fill_targets data ts
                (AList.update t
                   \<lparr>entry_title = get_field v ''title'',
                    entry_excerpt = get_field v ''excerpt'',
                    entry_rationale = get_field v ''rationale''\<rparr>
                   result))
      | _ \<Rightarrow> None)"

text \<open>
  \<^verbatim>\<open>
  api_key = api_key or os.getenv("OPENAI_API_KEY")
  if not api_key:
      return {}
  try:
      from openai import OpenAI
  except Exception:
      return {}
  ...
  completion = client.chat.completions.create(...)
  content = completion.choices[0].message.content or "{}"
  try:
      data = json.loads(content)
      ...
      return result
  except Exception:
      return {}
  \<close>
  The empty dictionary is the empty list.
\<close>

definition llm_extract_covenants ::
  "world \<Rightarrow> string \<Rightarrow> string list \<Rightarrow> string \<Rightarrow> string option \<Rightarrow> int
     \<Rightarrow> event list \<times> (error + llm_result)" where
  "llm_extract_covenants w text targets model api_key max_tokens =
     (let api_key' = (case api_key of
                        Some k \<Rightarrow> if k \<noteq> [] then Some k else getenv_OPENAI_API_KEY w
                      | None \<Rightarrow> getenv_OPENAI_API_KEY w)
      in case api_key' of
           None \<Rightarrow> ([], Inr [])
         | Some k \<Rightarrow>
             if k = [] then ([], Inr [])
             else if \<not> openai_importable w then ([], Inr [])
             else
               (let canonical_targets = map normalize_target targets;
                    request = \<lparr>req_api_key = k, req_model = model,
                               req_targets = canonical_targets,
                               req_text = take 100000 text,
                               req_max_tokens = max_tokens\<rparr>
                in case chat_completion w request of
                     Inl exn \<Rightarrow> ([NetworkCall request], Inl (ExternalError exn))
                   | Inr message_content \<Rightarrow>
                       (let content = (case message_content of
                                         Some c \<Rightarrow> if c \<noteq> [] then c else ''{}''
                                       | None \<Rightarrow> ''{}'')
                        in ([NetworkCall request],
                            Inr (case json_loads w content of
                                   None \<Rightarrow> []
                                 | Some data \<Rightarrow>
                                     (case fill_targets data canonical_targets [] of
                                        None \<Rightarrow> []
                                      | Some result \<Rightarrow> result))))))"

text \<open>A world without a key in the environment, in which every other step would
  succeed.\<close>

definition example_world :: world where
  "example_world =
     \<lparr>getenv_OPENAI_API_KEY = None,
      openai_importable = True,
      chat_completion = (\<lambda>request. Inr (Some ''(the reply)'')),
      json_loads = (\<lambda>s. Some (JObject [(''change of control'',
                      JObject [(''title'', JString ''Change of Control'')])]))\<rparr>"

section \<open>The span-based extractor (\<^verbatim>\<open>regex_extractor.py\<close>)\<close>

text \<open>The dataclass \<^verbatim>\<open>CovenantSection\<close> of \<^verbatim>\<open>regex_extractor.py\<close>. Positions are Python
  integers; a confidence is a finite \<^verbatim>\<open>float\<close>, that is a rational number.\<close>

record CovenantSection =
  section_type :: string
  title :: string
  content :: string
  start_pos :: int
  end_pos :: int
  confidence :: rat

subsection \<open>Patterns and the table of covenant types\<close>

text \<open>
  The regular expressions are handed to Python's \<^verbatim>\<open>re\<close> module, which is not part of the
  repository. A pattern is therefore named by its place in the source, \<open>CovenantPattern t n\<close>
  for entry \<open>n\<close> of \<^verbatim>\<open>covenant_patterns[t]["patterns"]\<close> and \<open>BoundaryPattern n\<close> for entry
  \<open>n\<close> of \<^verbatim>\<open>section_boundaries\<close>, and every function that searches takes the search as an
  argument \<open>fi\<close>: \<open>fi p s\<close> is the list of matches that \<^verbatim>\<open>re.finditer\<close> yields for pattern
  \<open>p\<close> on the string \<open>s\<close> (with the flags of that call), each with \<^verbatim>\<open>start()\<close>,
  \<^verbatim>\<open>end()\<close> and \<^verbatim>\<open>groups()\<close>. The theorems hold for every such \<open>fi\<close>.
\<close>

datatype pattern = CovenantPattern string nat | BoundaryPattern nat

record rmatch =
  m_start :: nat
  m_end :: nat
  m_groups :: "string list"

type_synonym finditer = "pattern \<Rightarrow> string \<Rightarrow> rmatch list"

text \<open>One value of the dictionary \<^verbatim>\<open>covenant_patterns\<close>, with its keys \<^verbatim>\<open>"patterns"\<close>,
  \<^verbatim>\<open>"keywords"\<close> and \<^verbatim>\<open>"section_indicators"\<close>.\<close>

record config =
  cfg_patterns :: "pattern list"
  cfg_keywords :: "string list"
  cfg_section_indicators :: "string list"

definition covenant_config :: "string \<Rightarrow> string list \<Rightarrow> string list \<Rightarrow> string \<times> config" where
  "covenant_config covenant_type kws indicators =
     (covenant_type,
      \<lparr>cfg_patterns = [CovenantPattern covenant_type 0, CovenantPattern covenant_type 1,
                        CovenantPattern covenant_type 2],
       cfg_keywords = kws,
       cfg_section_indicators = indicators\<rparr>)"

text \<open>\<^verbatim>\<open>self.covenant_patterns\<close>, in the order of the source (a Python dictionary keeps
  insertion order); each type has three patterns.\<close>

definition covenant_patterns :: "(string \<times> config) list" where
  "covenant_patterns =
     [covenant_config ''restricted_payments''
        [''restricted payment'', ''dividend'', ''distribution'', ''payment restriction'']
        [''shall not'', ''may not'', ''prohibited'', ''limitation'', ''restriction''],
      covenant_config ''change_of_control''
        [''change of control'', ''change in control'', ''control change'', ''acquisition'']
        [''means'', ''shall mean'', ''defined as'', ''constitutes'', ''triggers''],
      covenant_config ''debt_incurrence''
        [''debt'', ''indebtedness'', ''borrowing'', ''leverage'', ''debt incurrence'']
        [''shall not incur'', ''may not incur'', ''limitation'', ''ratio'', ''permitted''],
      covenant_config ''asset_sales''
        [''asset sale'', ''disposition'', ''transfer of assets'', ''sale of property'']
        [''shall not sell'', ''may not dispose'', ''permitted asset sale'', ''exceptions''],
      covenant_config ''merger_restrictions''
        [''merger'', ''consolidation'', ''amalgamation'', ''combination'']
        [''shall not merge'', ''may not consolidate'', ''prohibited'', ''permitted merger''],
      covenant_config ''investments''
        [''investment'', ''capital expenditure'', ''acquisition'', ''equity investment'']
        [''shall not invest'', ''permitted investments'', ''investment basket'', ''limitations''],
      covenant_config ''liens''
        [''lien'', ''security interest'', ''encumbrance'', ''pledge'', ''mortgage'']
        [''shall not create'', ''permitted liens'', ''negative pledge'', ''exceptions''],
      covenant_config ''transactions_with_affiliates''
        [''affiliate'', ''related party'', ''intercompany'', ''subsidiary transaction'']
        [''arm's length'', ''fair market value'', ''prohibited'', ''permitted'']]"

definition section_boundaries :: "pattern list" where
  "section_boundaries =
     [BoundaryPattern 0, BoundaryPattern 1, BoundaryPattern 2, BoundaryPattern 3]"

subsection \<open>The confidence scorer\<close>

text \<open>
  \<^verbatim>\<open>
  for keyword in config["keywords"]:
      if keyword.lower() in text_lower:
          keyword_score += 1
  \<close>
  and the same loop over \<^verbatim>\<open>config["section_indicators"]\<close>; \<^verbatim>\<open>a in b\<close> on strings asks
  whether \<open>a\<close> occurs in \<open>b\<close> as a contiguous piece, which is \<^const>\<open>sublist\<close>.
\<close>

fun count_hits :: "string list \<Rightarrow> string \<Rightarrow> int \<Rightarrow> int" where
  "count_hits [] text_lower score = score"
| "count_hits (phrase # phrases) text_lower score =
     count_hits phrases text_lower
       (if sublist (lower phrase) text_lower then score + 1 else score)"

text \<open>
  \<^verbatim>\<open>
  keyword_weight = 0.6
  indicator_weight = 0.4
  keyword_confidence = min(1.0, keyword_score / max(1, len(config["keywords"])))
  indicator_confidence = min(1.0, indicator_score / max(1, len(config["section_indicators"])))
  return (keyword_confidence * keyword_weight + indicator_confidence * indicator_weight)
  \<close>
\<close>

definition calculate_confidence :: "string \<Rightarrow> config \<Rightarrow> rat" where
  "calculate_confidence text config =
     (let text_lower = lower text;
          keyword_score = count_hits (cfg_keywords config) text_lower 0;
          indicator_score = count_hits (cfg_section_indicators config) text_lower 0;
          keyword_weight = fl (6 / 10);
          indicator_weight = fl (4 / 10);
          keyword_confidence =
            min 1 (truediv keyword_score (max 1 (int (length (cfg_keywords config)))));
          indicator_confidence =
            min 1 (truediv indicator_score (max 1 (int (length (cfg_section_indicators config)))))
      in fadd (fmul keyword_confidence keyword_weight)
              (fmul indicator_confidence indicator_weight))"


subsection \<open>The span of a section\<close>

text \<open>The slice \<^verbatim>\<open>s[a:b]\<close> for indices that are not negative, and \<^verbatim>\<open>s.rfind(sub)\<close>, the
  highest index at which \<open>sub\<close> occurs in \<open>s\<close>, or \<open>-1\<close>.\<close>

definition slice :: "string \<Rightarrow> nat \<Rightarrow> nat \<Rightarrow> string" where
  "slice s a b = take (b - a) (drop a s)"

definition rfind :: "string \<Rightarrow> string \<Rightarrow> int" where
  "rfind s sub =
     (case filter (\<lambda>i. prefix sub (drop i s)) (rev [0..<Suc (length s)]) of
        [] \<Rightarrow> - 1
      | i # _ \<Rightarrow> int i)"

text \<open>
  \<^verbatim>\<open>
  next_section_pos = len(text)
  for boundary_pattern in self.section_boundaries:
      matches = re.finditer(boundary_pattern, text[initial_end:])
      for match in matches:
          pos = initial_end + match.start()
          if pos < next_section_pos:
              next_section_pos = pos
              break
  \<close>
  \<open>first_boundary\<close> is the inner loop and \<open>next_boundary\<close> the outer one.
\<close>

fun first_boundary :: "nat \<Rightarrow> rmatch list \<Rightarrow> nat \<Rightarrow> nat" where
  "first_boundary initial_end [] next_section_pos = next_section_pos"
| "first_boundary initial_end (m # matches) next_section_pos =
     (let pos = initial_end + m_start m in
      if pos < next_section_pos then pos
      else first_boundary initial_end matches next_section_pos)"

fun next_boundary :: "finditer \<Rightarrow> string \<Rightarrow> nat \<Rightarrow> pattern list \<Rightarrow> nat \<Rightarrow> nat" where
  "next_boundary fi text initial_end [] next_section_pos = next_section_pos"
| "next_boundary fi text initial_end (boundary_pattern # rest) next_section_pos =
     next_boundary fi text initial_end rest
       (first_boundary initial_end (fi boundary_pattern (drop initial_end text)) next_section_pos)"

text \<open>
  \<^verbatim>\<open>
  max_length = 5000
  end_pos = min(next_section_pos, start_pos + max_length)
  section_text = text[start_pos:end_pos]
  \<close>
  The arguments \<^verbatim>\<open>start_pos\<close> and \<^verbatim>\<open>initial_end\<close> of \<^verbatim>\<open>_extract_full_section\<close> are the
  \<^verbatim>\<open>start()\<close> and \<^verbatim>\<open>end()\<close> of a match, hence natural numbers; they are called
  \<open>span_start\<close> and \<open>span_end\<close> here because the record owns the names \<open>start_pos\<close> and
  \<open>end_pos\<close>.
\<close>

definition captured_span :: "finditer \<Rightarrow> string \<Rightarrow> nat \<Rightarrow> nat \<Rightarrow> string" where
  "captured_span fi text span_start initial_end =
     (let next_section_pos = next_boundary fi text initial_end section_boundaries (length text);
          max_length = 5000;
          span_end = min next_section_pos (span_start + max_length)
      in slice text span_start span_end)"

text \<open>
  \<^verbatim>\<open>
  last_para = section_text.rfind('\n\n')
  if last_para > len(section_text) * 0.7:
      section_text = section_text[:last_para]
  return section_text.strip()
  \<close>
  The product is a float product, and Python compares the integer with the float exactly.
\<close>

definition extract_full_section :: "finditer \<Rightarrow> string \<Rightarrow> nat \<Rightarrow> nat \<Rightarrow> string" where
  "extract_full_section fi text span_start initial_end =
     (let section_text = captured_span fi text span_start initial_end;
          last_para = rfind section_text [CHR 0x0A, CHR 0x0A]
      in strip (if of_int last_para > fmul (float_of_int (int (length section_text))) (fl (7 / 10))
                then take (nat last_para) section_text
                else section_text))"

text \<open>Position \<open>p\<close> is the last blank-line boundary of \<open>s\<close>: two line feeds stand at \<open>p\<close>
  and at no later position.\<close>

definition last_blank_line :: "string \<Rightarrow> nat \<Rightarrow> bool" where
  "last_blank_line s p =
     (prefix [CHR 0x0A, CHR 0x0A] (drop p s) \<and>
      (\<forall>q\<in>set [Suc p..<Suc (length s)]. \<not> prefix [CHR 0x0A, CHR 0x0A] (drop q s)))"

subsection \<open>The deduplicator\<close>

text \<open>
  The inner loop of \<^verbatim>\<open>_deduplicate_sections\<close>,
  \<^verbatim>\<open>
  overlaps = False
  for existing in deduplicated:
      if (section.start_pos >= existing.start_pos and
          section.start_pos < existing.end_pos):
          if section.confidence > existing.confidence:
              deduplicated.remove(existing)
          else:
              overlaps = True
              break
  \<close>
  A Python \<^verbatim>\<open>for\<close> over a list reads index \<open>0, 1, 2, \<dots>\<close> of the list as it is at that
  moment, so after \<^verbatim>\<open>remove\<close> the element that followed the removed one is passed over;
  \<^verbatim>\<open>list.remove\<close> deletes the first element that is equal to its argument, and two
  dataclass instances are equal when all their fields are. The function returns the list
  and the flag \<^verbatim>\<open>overlaps\<close>.
\<close>

function dedup_scan ::
  "CovenantSection \<Rightarrow> CovenantSection list \<Rightarrow> nat \<Rightarrow> CovenantSection list \<times> bool" where
  "dedup_scan section deduplicated i =
     (if i < length deduplicated then
        (let existing = deduplicated ! i in
         if start_pos section \<ge> start_pos existing \<and> start_pos section < end_pos existing then
           (if confidence section > confidence existing
            then dedup_scan section (remove1 existing deduplicated) (i + 1)
            else (deduplicated, True))
         else dedup_scan section deduplicated (i + 1))
      else (deduplicated, False))"
  by pat_completeness auto
termination
  by (relation "measure (\<lambda>(s, d, i). length d - i)") (auto simp: length_remove1)

declare dedup_scan.simps [simp del]

text \<open>The outer loop: \<^verbatim>\<open>for section in sections: ...; if not overlaps:
  deduplicated.append(section)\<close>.\<close>

fun dedup_loop :: "CovenantSection list \<Rightarrow> CovenantSection list \<Rightarrow> CovenantSection list" where
  "dedup_loop [] deduplicated = deduplicated"
| "dedup_loop (section # rest) deduplicated =
     (case dedup_scan section deduplicated 0 of
        (deduplicated', overlaps) \<Rightarrow>
          dedup_loop rest (if \<not> overlaps then deduplicated' @ [section] else deduplicated'))"

text \<open>\<^verbatim>\<open>sections.sort(key=lambda x: x.start_pos)\<close> is a stable sort, as \<^const>\<open>sort_key\<close> is.\<close>

definition deduplicate_sections :: "CovenantSection list \<Rightarrow> CovenantSection list" where
  "deduplicate_sections sections =
     (if sections = [] then [] else dedup_loop (sort_key start_pos sections) [])"

text \<open>Two half-open ranges \<open>[start_pos, end_pos)\<close> overlap when they share a position.\<close>

definition ranges_overlap :: "CovenantSection \<Rightarrow> CovenantSection \<Rightarrow> bool" where
  "ranges_overlap a b = (max (start_pos a) (start_pos b) < min (end_pos a) (end_pos b))"

text \<open>The two ways in which the loop drops a candidate \<open>x\<close> in favour of \<open>y\<close>: \<open>x\<close> starts
  inside \<open>y\<close> and is not more confident (the \<^verbatim>\<open>else\<close> branch rejects \<open>x\<close>), or \<open>y\<close> starts
  inside \<open>x\<close> and is strictly more confident (\<^verbatim>\<open>remove\<close> evicts \<open>x\<close>).\<close>

definition beaten_by :: "CovenantSection \<Rightarrow> CovenantSection \<Rightarrow> bool" where
  "beaten_by x y =
     ((start_pos y \<le> start_pos x \<and> start_pos x < end_pos y \<and> confidence x \<le> confidence y) \<or>
      (start_pos x \<le> start_pos y \<and> start_pos y < end_pos x \<and> confidence x < confidence y))"

text \<open>The accepted list is a chain: every member starts at or after the start and the end
  of every earlier member.\<close>

definition before :: "CovenantSection \<Rightarrow> CovenantSection \<Rightarrow> bool" where
  "before a b = (start_pos a \<le> start_pos b \<and> end_pos a \<le> start_pos b)"

text \<open>The test of the inner loop, \<^verbatim>\<open>section.start_pos >= existing.start_pos and
  section.start_pos < existing.end_pos\<close>: the new section contests the range of an accepted
  one when it starts inside that range.\<close>

definition contested :: "CovenantSection \<Rightarrow> CovenantSection \<Rightarrow> bool" where
  "contested section existing =
     (start_pos section \<ge> start_pos existing \<and> start_pos section < end_pos existing)"

text \<open>The list \<^verbatim>\<open>deduplicated\<close> after the first \<open>k\<close> iterations of the outer loop, which
  runs over the sorted candidates; iteration \<open>k\<close> handles the candidate
  \<open>sort_key start_pos sections ! k\<close>.\<close>

definition accepted_after :: "nat \<Rightarrow> CovenantSection list \<Rightarrow> CovenantSection list" where
  "accepted_after k sections = dedup_loop (take k (sort_key start_pos sections)) []"

text \<open>A dropped candidate \<open>x\<close> is outranked by \<open>y\<close> when a chain of contests among the
  candidates leads from \<open>x\<close> to \<open>y\<close>, each one lost to the next.\<close>

inductive lost_to :: "CovenantSection set \<Rightarrow> CovenantSection \<Rightarrow> CovenantSection \<Rightarrow> bool"
  for candidates :: "CovenantSection set" where
  contest: "y \<in> candidates \<Longrightarrow> beaten_by x y \<Longrightarrow> lost_to candidates x y"
| chain: "z \<in> candidates \<Longrightarrow> beaten_by x z \<Longrightarrow> lost_to candidates z y \<Longrightarrow> lost_to candidates x y"

text \<open>Four candidates of one type, out of position order, used as a worked example.\<close>

definition example_candidates :: "CovenantSection list" where
  "example_candidates =
     [\<lparr>section_type = ''liens'', title = ''negative pledge'', content = ''c'',
        start_pos = 50, end_pos = 60, confidence = 9 / 10\<rparr>,
      \<lparr>section_type = ''liens'', title = ''permitted liens'', content = ''d'',
        start_pos = 200, end_pos = 300, confidence = 7 / 20\<rparr>,
      \<lparr>section_type = ''liens'', title = ''lien covenants'', content = ''a'',
        start_pos = 0, end_pos = 100, confidence = 1 / 2\<rparr>,
      \<lparr>section_type = ''liens'', title = ''liens restrictions'', content = ''b'',
        start_pos = 10, end_pos = 20, confidence = 2 / 5\<rparr>]"

subsection \<open>Extraction\<close>

text \<open>\<^verbatim>\<open>str.title()\<close>, needed for the fallback title only. It is applied to the keys of
  \<^verbatim>\<open>covenant_patterns\<close>, which are ASCII, and is modelled on ASCII letters.\<close>

fun title_from :: "bool \<Rightarrow> string \<Rightarrow> string" where
  "title_from previous_is_cased [] = []"
| "title_from previous_is_cased (c # cs) =
     (if is_ascii_upper c
      then (if previous_is_cased then char_of ((of_char c :: nat) + 32) else c) # title_from True cs
      else if is_ascii_lower c
      then (if previous_is_cased then c else char_of ((of_char c :: nat) - 32)) # title_from True cs
      else c # title_from False cs)"

definition str_title :: "string \<Rightarrow> string" where
  "str_title s = title_from False s"

text \<open>
  The body of the loop over the matches of one pattern, in \<^verbatim>\<open>extract_sections\<close> and in
  \<^verbatim>\<open>extract_by_type\<close> alike:
  \<^verbatim>\<open>
  section_content = self._extract_full_section(text, match.start(), match.end())
  confidence = self._calculate_confidence(section_content, config)
  if confidence > 0.3:
      section = CovenantSection(
          section_type=covenant_type,
          title=match.group(1) if match.groups() else covenant_type.replace('_', ' ').title(),
          content=section_content,
          start_pos=match.start(),
          end_pos=match.start() + len(section_content),
          confidence=confidence)
      sections.append(section)
  \<close>
\<close>

definition make_section ::
  "finditer \<Rightarrow> string \<Rightarrow> string \<Rightarrow> config \<Rightarrow> rmatch \<Rightarrow> CovenantSection option" where
  "make_section fi text covenant_type config match =
     (let section_content = extract_full_section fi text (m_start match) (m_end match);
          confidence = calculate_confidence section_content config
      in if confidence > fl (3 / 10) then
           Some \<lparr>section_type = covenant_type,
                 title = (if m_groups match \<noteq> [] then hd (m_groups match)
                          else str_title (replace_chr CHR ''_'' CHR '' '' covenant_type)),
                 content = section_content,
                 start_pos = int (m_start match),
                 end_pos = int (m_start match) + int (length section_content),
                 confidence = confidence\<rparr>
         else None)"

text \<open>\<^verbatim>\<open>for pattern in config["patterns"]: for match in re.finditer(pattern, text, ...)\<close>:
  the sections of one covenant type, in the order in which they are appended.\<close>

definition type_sections :: "finditer \<Rightarrow> string \<Rightarrow> string \<Rightarrow> config \<Rightarrow> CovenantSection list" where
  "type_sections fi text covenant_type config =
     concat (map (\<lambda>pattern. List.map_filter (make_section fi text covenant_type config)
                                (fi pattern text))
                 (cfg_patterns config))"

definition extract_sections :: "finditer \<Rightarrow> string \<Rightarrow> CovenantSection list" where
  "extract_sections fi text =
     deduplicate_sections
       (concat (map (\<lambda>(covenant_type, config). type_sections fi text covenant_type config)
                    covenant_patterns))"

text \<open>\<^verbatim>\<open>extract_by_type\<close> raises \<^verbatim>\<open>ValueError\<close> for a type that is not a key of the
  table.\<close>

definition extract_by_type :: "finditer \<Rightarrow> string \<Rightarrow> string \<Rightarrow> error + CovenantSection list" where
  "extract_by_type fi text covenant_type =
     (case map_of covenant_patterns covenant_type of
        None \<Rightarrow> Inl (ValueError (''Unknown covenant type: '' @ covenant_type))
      | Some config \<Rightarrow> Inr (deduplicate_sections (type_sections fi text covenant_type config)))"

subsection \<open>A worked example\<close>

text \<open>A one-sentence document, and what \<^verbatim>\<open>re.finditer\<close> yields on it: the first pattern
  of the type \<^verbatim>\<open>liens\<close> matches once, from 0 to 54, and nothing else matches.\<close>

definition example_text :: string where
  "example_text = ''Negative pledge: the Company shall not create any lien.''"

definition example_finditer :: finditer where
  "example_finditer p s =
     (if p = CovenantPattern ''liens'' 0 \<and> s = example_text
      then [\<lparr>m_start = 0, m_end = 54,
             m_groups = [''Negative pledge'', ''the Company shall not create any lien'']\<rparr>]
      else [])"

text \<open>A span whose last paragraph break stands at 14 of 18 characters, with no boundary
  pattern matching.\<close>

definition example_paragraphs :: string where
  "example_paragraphs = ''Liens: a b c d'' @ [CHR 0x0A, CHR 0x0A] @ ''ee''"

definition no_match :: finditer where
  "no_match p s = []"

chapter \<open>Properties\<close>

section \<open>Normalization\<close>

lemma of_char_lower_chr:
  "(of_char (lower_chr c) :: nat) = (if isupper c then of_char c + 32 else of_char c)"
  by (auto simp: lower_chr_def isupper_def Let_def)

lemma isspace_lower_chr: "isspace (lower_chr c) = isspace c"
  by (auto simp: isspace_def of_char_lower_chr isupper_def Let_def)

lemma isupper_lower_chr: "\<not> isupper (lower_chr c)"
  by (auto simp: of_char_lower_chr isupper_def Let_def)

lemma lower_chr_idem: "lower_chr (lower_chr c) = lower_chr c"
  using isupper_lower_chr [of c] by (simp add: lower_chr_def)

lemma lower_chr_space: "lower_chr CHR '' '' = CHR '' ''"
  by (simp add: lower_chr_def isupper_def)

lemma lower_idem: "lower (lower s) = lower s"
  by (simp add: lower_def lower_chr_idem)

lemma dropWhile_isspace_lower: "dropWhile isspace (lower s) = lower (dropWhile isspace s)"
  by (induction s) (auto simp: lower_def isspace_lower_chr)

lemma sub_ws_lower: "sub_ws (lower s) = lower (sub_ws s)"
proof (induction s rule: sub_ws.induct)
  case 1
  show ?case by (simp add: lower_def)
next
  case (2 c cs)
  show ?case
  proof (cases "isspace c")
    case True
    with 2 have "sub_ws (lower (dropWhile isspace cs)) = lower (sub_ws (dropWhile isspace cs))"
      by simp
    with True show ?thesis
      using dropWhile_isspace_lower [of cs]
      by (simp add: lower_def isspace_lower_chr lower_chr_space)
  next
    case False
    with 2 show ?thesis by (simp add: lower_def isspace_lower_chr)
  qed
qed

lemma ltrimmed_dropWhile: "ltrimmed (dropWhile isspace s)"
  by (induction s) (auto simp: ltrimmed_def)

lemma dropWhile_ltrimmed: "ltrimmed s \<Longrightarrow> dropWhile isspace s = s"
  by (cases s) (auto simp: ltrimmed_def)

lemma ltrimmed_sub_ws: "ltrimmed s \<Longrightarrow> ltrimmed (sub_ws s)"
  by (cases s) (auto simp: ltrimmed_def)

lemma sub_ws_idem: "sub_ws (sub_ws s) = sub_ws s"
proof (induction s rule: sub_ws.induct)
  case 1
  show ?case by simp
next
  case (2 c cs)
  show ?case
  proof (cases "isspace c")
    case True
    have sp: "isspace CHR '' ''" by (simp add: isspace_def)
    have "dropWhile isspace (sub_ws (dropWhile isspace cs)) = sub_ws (dropWhile isspace cs)"
      by (rule dropWhile_ltrimmed) (rule ltrimmed_sub_ws, rule ltrimmed_dropWhile)
    with True 2 sp show ?thesis by simp
  next
    case False
    with 2 show ?thesis by simp
  qed
qed

lemma rtrimmed_nonempty_iff: "s \<noteq> [] \<Longrightarrow> rtrimmed s = (\<not> isspace (last s))"
  by (cases s rule: rev_cases) (auto simp: rtrimmed_def ltrimmed_def)

lemma dropWhile_keeps_last:
  "s \<noteq> [] \<Longrightarrow> \<not> isspace (last s) \<Longrightarrow>
     dropWhile isspace s \<noteq> [] \<and> last (dropWhile isspace s) = last s"
  by (induction s) (auto split: if_splits)

lemma sub_ws_last:
  "s \<noteq> [] \<Longrightarrow> \<not> isspace (last s) \<Longrightarrow> sub_ws s \<noteq> [] \<and> last (sub_ws s) = last s"
proof (induction s rule: sub_ws.induct)
  case 1
  then show ?case by simp
next
  case (2 c cs)
  show ?case
  proof (cases "cs = []")
    case True
    with 2 show ?thesis by simp
  next
    case False
    with 2(3,4) have l: "\<not> isspace (last cs)" by simp
    show ?thesis
    proof (cases "isspace c")
      case True
      from dropWhile_keeps_last [OF False l] 2(1) [OF True] l True
      show ?thesis using False by simp
    next
      case False
      with 2(2) \<open>cs \<noteq> []\<close> l show ?thesis by simp
    qed
  qed
qed

lemma rtrimmed_sub_ws: "rtrimmed s \<Longrightarrow> rtrimmed (sub_ws s)"
proof (cases "s = []")
  case True
  then show ?thesis by (simp add: rtrimmed_def ltrimmed_def)
next
  case False
  assume "rtrimmed s"
  with False have l: "\<not> isspace (last s)" by (simp add: rtrimmed_nonempty_iff)
  from sub_ws_last [OF False l] l show ?thesis by (simp add: rtrimmed_nonempty_iff)
qed

lemma strip_trimmed: "ltrimmed s \<Longrightarrow> rtrimmed s \<Longrightarrow> strip s = s"
  by (simp add: strip_def dropWhile_ltrimmed rtrimmed_def)

lemma rtrimmed_strip: "rtrimmed (strip s)"
  by (simp add: strip_def rtrimmed_def ltrimmed_dropWhile)

lemma dropWhile_snoc_keep:
  "\<not> isspace x \<Longrightarrow> \<exists>zs. dropWhile isspace (ys @ [x]) = zs @ [x]"
  by (simp add: dropWhile_append)

lemma ltrimmed_strip: "ltrimmed (strip s)"
proof (cases "dropWhile isspace s")
  case Nil
  then have "strip s = []" by (simp only: strip_def rev.simps dropWhile.simps)
  then show ?thesis by (simp add: ltrimmed_def)
next
  case (Cons x d)
  have "ltrimmed (x # d)"
    using ltrimmed_dropWhile [of s] Cons by simp
  then have nx: "\<not> isspace x" by (simp add: ltrimmed_def)
  from dropWhile_snoc_keep [OF nx, of "rev d"]
  obtain zs where "dropWhile isspace (rev d @ [x]) = zs @ [x]" by blast
  with Cons nx show ?thesis by (simp add: strip_def ltrimmed_def)
qed

lemma ltrimmed_lower: "ltrimmed (lower s) = ltrimmed s"
  by (cases s) (auto simp: ltrimmed_def lower_def isspace_lower_chr)

lemma rtrimmed_lower: "rtrimmed (lower s) = rtrimmed s"
  by (cases s rule: rev_cases) (auto simp: rtrimmed_def ltrimmed_def lower_def isspace_lower_chr)

lemma replace_chr_same: "replace_chr c c s = s"
  by (simp add: replace_chr_def map_idI)

text \<open>The outer \<^verbatim>\<open>strip\<close> and the \<^verbatim>\<open>replace\<close> of a hyphen by itself change nothing.\<close>

lemma normalize_target_eq: "normalize_target name = sub_ws (lower (strip name))"
  unfolding normalize_target_def replace_chr_same
  by (intro strip_trimmed ltrimmed_sub_ws rtrimmed_sub_ws)
     (simp_all add: ltrimmed_lower rtrimmed_lower ltrimmed_strip rtrimmed_strip)

lemma normalize_target_trimmed: "ltrimmed (normalize_target x) \<and> rtrimmed (normalize_target x)"
  unfolding normalize_target_eq
  by (simp add: ltrimmed_sub_ws rtrimmed_sub_ws ltrimmed_lower rtrimmed_lower
      ltrimmed_strip rtrimmed_strip)

text \<open>
  \<^bold>\<open>Claim C9.\<close> Target normalization is idempotent: for every string \<open>x\<close>, normalizing the
  normalized string gives the normalized string again, where normalizing lower-cases,
  collapses each run of whitespace to one space, and trims both ends.
\<close>

theorem normalize_target_idempotent:
  "normalize_target (normalize_target x) = normalize_target x"
proof -
  let ?y = "normalize_target x"
  have "strip ?y = ?y"
    using normalize_target_trimmed [of x] by (simp add: strip_trimmed)
  then have "normalize_target ?y = sub_ws (lower ?y)"
    by (simp add: normalize_target_eq)
  also have "\<dots> = sub_ws (lower (sub_ws (lower (strip x))))"
    by (simp add: normalize_target_eq)
  also have "\<dots> = sub_ws (lower (strip x))"
    by (simp add: sub_ws_lower [symmetric] lower_idem sub_ws_idem)
  finally show ?thesis by (simp add: normalize_target_eq)
qed

section \<open>The deduplicator\<close>

text \<open>What one pass of the inner loop may do: it only removes members, each removed member
  contains the start of the new section and is strictly less confident, and when the flag
  is raised some remaining member contains that start and is at least as confident.\<close>

lemma dedup_scan_contest:
  "dedup_scan s d i = (d', ov) \<Longrightarrow>
     set d' \<subseteq> set d \<and>
     (\<forall>x\<in>set d. x \<notin> set d' \<longrightarrow>
        start_pos x \<le> start_pos s \<and> start_pos s < end_pos x \<and> confidence x < confidence s) \<and>
     (ov \<longrightarrow> (\<exists>e\<in>set d'. start_pos e \<le> start_pos s \<and> start_pos s < end_pos e
                  \<and> confidence s \<le> confidence e))"
proof (induction s d i arbitrary: d' ov rule: dedup_scan.induct)
  case (1 s d i)
  show ?case
  proof (cases "i < length d")
    case False
    with "1.prems" show ?thesis by (simp add: dedup_scan.simps)
  next
    case True
    let ?e = "d ! i"
    have emem: "?e \<in> set d" using True by simp
    show ?thesis
    proof (cases "start_pos s \<ge> start_pos ?e \<and> start_pos s < end_pos ?e")
      case False
      with True "1.prems" have "dedup_scan s d (i + 1) = (d', ov)"
        by (simp add: dedup_scan.simps [of s d i] Let_def)
      from "1.IH"(2) [OF True refl False this] show ?thesis .
    next
      case hit: True
      show ?thesis
      proof (cases "confidence s > confidence ?e")
        case True
        with hit \<open>i < length d\<close> "1.prems"
        have r: "dedup_scan s (remove1 ?e d) (i + 1) = (d', ov)"
          by (simp add: dedup_scan.simps [of s d i] Let_def)
        from "1.IH"(1) [OF \<open>i < length d\<close> refl hit True r]
        have ih: "set d' \<subseteq> set (remove1 ?e d)"
          "\<forall>x\<in>set (remove1 ?e d). x \<notin> set d' \<longrightarrow>
             start_pos x \<le> start_pos s \<and> start_pos s < end_pos x \<and> confidence x < confidence s"
          "ov \<longrightarrow> (\<exists>e\<in>set d'. start_pos e \<le> start_pos s \<and> start_pos s < end_pos e
                  \<and> confidence s \<le> confidence e)"
          by blast+
        have sub: "set (remove1 ?e d) \<subseteq> set d" by (rule set_remove1_subset)
        have "\<And>x. x \<in> set d \<Longrightarrow> x \<notin> set (remove1 ?e d) \<Longrightarrow> x = ?e"
          by (metis in_set_remove1)
        with ih sub hit True show ?thesis by blast
      next
        case False
        with hit \<open>i < length d\<close> "1.prems" have "d' = d" "ov"
          by (simp_all add: dedup_scan.simps [of s d i] Let_def)
        with hit False emem show ?thesis by (auto simp: not_less)
      qed
    qed
  qed
qed

text \<open>On a chain whose members all start at or before the new section, only the last
  member can contain the new start, so the element passed over after a removal never
  exists, and the pass keeps the chain.\<close>

lemma dedup_scan_chain:
  assumes "sorted_wrt before d"
    and "\<forall>e\<in>set d. start_pos e \<le> start_pos s"
    and "\<forall>k<i. k < length d \<longrightarrow> end_pos (d ! k) \<le> start_pos s"
    and "dedup_scan s d i = (d', ov)"
  shows "sorted_wrt before d' \<and> (\<not> ov \<longrightarrow> (\<forall>e\<in>set d'. end_pos e \<le> start_pos s))"
  using assms
proof (induction s d i arbitrary: d' ov rule: dedup_scan.induct)
  case (1 s d i)
  show ?case
  proof (cases "i < length d")
    case False
    with "1.prems"(4) have "d' = d" "\<not> ov" by (simp_all add: dedup_scan.simps [of s d i])
    moreover have "\<forall>e\<in>set d. end_pos e \<le> start_pos s"
      using "1.prems"(3) False by (auto simp: in_set_conv_nth)
    ultimately show ?thesis using "1.prems"(1) by simp
  next
    case True
    let ?e = "d ! i"
    have emem: "?e \<in> set d" using True by simp
    show ?thesis
    proof (cases "start_pos s \<ge> start_pos ?e \<and> start_pos s < end_pos ?e")
      case False
      with True "1.prems"(4) have r: "dedup_scan s d (i + 1) = (d', ov)"
        by (simp add: dedup_scan.simps [of s d i] Let_def)
      from False "1.prems"(2) emem have "end_pos ?e \<le> start_pos s" by auto
      with "1.prems"(3) have "\<forall>k<i + 1. k < length d \<longrightarrow> end_pos (d ! k) \<le> start_pos s"
        by (auto simp: less_Suc_eq)
      from "1.IH"(2) [OF True refl False "1.prems"(1,2) this r] show ?thesis .
    next
      case hit: True
      show ?thesis
      proof (cases "confidence s > confidence ?e")
        case False
        with hit True "1.prems"(4) have "d' = d" "ov"
          by (simp_all add: dedup_scan.simps [of s d i] Let_def)
        with "1.prems"(1) show ?thesis by simp
      next
        case gt: True
        with hit True "1.prems"(4)
        have r: "dedup_scan s (remove1 ?e d) (i + 1) = (d', ov)"
          by (simp add: dedup_scan.simps [of s d i] Let_def)
        have last: "Suc i = length d"
        proof (rule ccontr)
          assume "Suc i \<noteq> length d"
          with True have j: "Suc i < length d" by simp
          with "1.prems"(1) have "before ?e (d ! Suc i)"
            by (simp add: sorted_wrt_iff_nth_less)
          moreover have "start_pos (d ! Suc i) \<le> start_pos s"
            using "1.prems"(2) j by simp
          ultimately show False using hit by (simp add: before_def)
        qed
        have notin: "?e \<notin> set (take i d)"
        proof
          assume "?e \<in> set (take i d)"
          then obtain k where "k < i" "k < length d" "d ! k = ?e"
            by (auto simp: in_set_conv_nth)
          with "1.prems"(3) have "end_pos ?e \<le> start_pos s" by metis
          with hit show False by simp
        qed
        have d: "d = take i d @ [?e]"
          using last True by (metis take_Suc_conv_app_nth take_all order_refl)
        have rm: "remove1 ?e d = take i d"
          by (subst d) (simp add: remove1_append notin)
        have len: "length (take i d) = i" using True by simp
        from r have "d' = take i d" "\<not> ov"
          unfolding rm by (simp_all add: dedup_scan.simps [of s "take i d" "Suc i"] len)
        moreover have "sorted_wrt before (take i d)"
          using "1.prems"(1) by (rule sorted_wrt_take)
        moreover have "\<forall>e\<in>set (take i d). end_pos e \<le> start_pos s"
          using "1.prems"(3) by (auto simp: in_set_conv_nth)
        ultimately show ?thesis by simp
      qed
    qed
  qed
qed

lemma dedup_loop_chain:
  assumes "sorted_wrt before d"
    and "sorted (map start_pos rest)"
    and "\<forall>e\<in>set d. \<forall>s\<in>set rest. start_pos e \<le> start_pos s"
  shows "sorted_wrt before (dedup_loop rest d)"
  using assms
proof (induction rest arbitrary: d)
  case Nil
  then show ?case by simp
next
  case (Cons s rest)
  obtain d' ov where sc: "dedup_scan s d 0 = (d', ov)" by (cases "dedup_scan s d 0")
  have le: "\<forall>e\<in>set d. start_pos e \<le> start_pos s" using Cons.prems(3) by simp
  from dedup_scan_chain [OF Cons.prems(1) le _ sc]
  have ch: "sorted_wrt before d'" and app: "\<not> ov \<Longrightarrow> \<forall>e\<in>set d'. end_pos e \<le> start_pos s"
    by simp_all
  from dedup_scan_contest [OF sc] have sub: "set d' \<subseteq> set d" by simp
  let ?d = "if \<not> ov then d' @ [s] else d'"
  have 1: "sorted_wrt before ?d"
    using ch app le sub by (auto simp: sorted_wrt_append before_def)
  have 2: "sorted (map start_pos rest)" using Cons.prems(2) by simp
  have 3: "\<forall>e\<in>set ?d. \<forall>t\<in>set rest. start_pos e \<le> start_pos t"
    using Cons.prems(2,3) sub by auto
  from Cons.IH [OF 1 2 3] sc show ?case by simp
qed

lemma before_no_overlap: "before a b \<Longrightarrow> \<not> ranges_overlap a b"
  by (auto simp: before_def ranges_overlap_def)

lemma dedup_loop_contest:
  assumes "set d \<subseteq> seen"
    and "\<forall>x\<in>seen. x \<notin> set d \<longrightarrow> (\<exists>y\<in>seen. beaten_by x y)"
  shows "set (dedup_loop rest d) \<subseteq> seen \<union> set rest \<and>
         (\<forall>x\<in>seen \<union> set rest. x \<notin> set (dedup_loop rest d) \<longrightarrow>
            (\<exists>y\<in>seen \<union> set rest. beaten_by x y))"
  using assms
proof (induction rest arbitrary: d seen)
  case Nil
  then show ?case by simp
next
  case (Cons s rest)
  obtain d' ov where sc: "dedup_scan s d 0 = (d', ov)" by (cases "dedup_scan s d 0")
  note c = dedup_scan_contest [OF sc]
  let ?d = "if \<not> ov then d' @ [s] else d'"
  let ?seen = "insert s seen"
  have 1: "set ?d \<subseteq> ?seen" using c Cons.prems(1) by auto
  have 2: "\<forall>x\<in>?seen. x \<notin> set ?d \<longrightarrow> (\<exists>y\<in>?seen. beaten_by x y)"
  proof (intro ballI impI)
    fix x assume x: "x \<in> ?seen" "x \<notin> set ?d"
    show "\<exists>y\<in>?seen. beaten_by x y"
    proof (cases "x \<in> set d")
      case True
      with x c have "beaten_by x s" by (auto simp: beaten_by_def split: if_splits)
      then show ?thesis by blast
    next
      case False
      show ?thesis
      proof (cases "x \<in> seen")
        case True
        with False Cons.prems(2) show ?thesis by blast
      next
        case False
        with x have xs: "x = s" "ov" by (auto split: if_splits)
        with c obtain e where "e \<in> set d'" "beaten_by s e" by (auto simp: beaten_by_def)
        with 1 xs show ?thesis by (auto split: if_splits)
      qed
    qed
  qed
  from Cons.IH [OF 1 2] sc show ?case by simp
qed

lemma deduplicate_sections_subset: "set (deduplicate_sections sections) \<subseteq> set sections"
proof (cases "sections = []")
  case True
  then show ?thesis by (simp add: deduplicate_sections_def)
next
  case False
  have "set (dedup_loop (sort_key start_pos sections) []) \<subseteq> {} \<union> set (sort_key start_pos sections)"
    using dedup_loop_contest [of "[]" "{}" "sort_key start_pos sections"] by simp
  with False show ?thesis by (simp add: deduplicate_sections_def)
qed


text \<open>The outer loop is a fold, so its state after \<open>k\<close> iterations is its result on the
  first \<open>k\<close> candidates.\<close>

lemma dedup_loop_append:
  "dedup_loop (xs @ ys) d = dedup_loop ys (dedup_loop xs d)"
proof (induction xs arbitrary: d)
  case Nil
  show ?case by simp
next
  case (Cons s xs)
  obtain d' ov where sc: "dedup_scan s d 0 = (d', ov)" by (cases "dedup_scan s d 0")
  show ?case using sc Cons.IH by simp
qed

lemma accepted_after_Suc:
  assumes "k < length sections"
  shows "accepted_after (Suc k) sections =
    (case dedup_scan (sort_key start_pos sections ! k) (accepted_after k sections) 0 of
       (d', ov) \<Rightarrow> if \<not> ov then d' @ [sort_key start_pos sections ! k] else d')"
proof -
  let ?xs = "sort_key start_pos sections"
  have k: "k < length ?xs" using assms by simp
  have "take (Suc k) ?xs = take k ?xs @ [?xs ! k]"
    using k by (rule take_Suc_conv_app_nth)
  then have "accepted_after (Suc k) sections = dedup_loop [?xs ! k] (accepted_after k sections)"
    by (simp only: accepted_after_def dedup_loop_append)
  then show ?thesis by (simp split: prod.splits)
qed

lemma accepted_after_length:
  "accepted_after (length sections) sections = deduplicate_sections sections"
  by (simp add: accepted_after_def deduplicate_sections_def)

text \<open>Before every iteration the accepted list is a chain of candidates that start at or
  before the one to handle.\<close>

lemma accepted_after_chain:
  assumes "k < length sections"
  shows "sorted_wrt before (accepted_after k sections)"
    and "\<forall>e\<in>set (accepted_after k sections).
           start_pos e \<le> start_pos (sort_key start_pos sections ! k)"
proof -
  let ?xs = "sort_key start_pos sections"
  have k: "k < length ?xs" using assms by simp
  have srt: "sorted (map start_pos ?xs)" by simp
  have "sorted (map start_pos (take k ?xs))"
    using srt by (simp add: take_map [symmetric] sorted_wrt_take del: sorted_sort_key)
  then show "sorted_wrt before (accepted_after k sections)"
    unfolding accepted_after_def by (intro dedup_loop_chain) simp_all
  have sub: "set (accepted_after k sections) \<subseteq> set (take k ?xs)"
    using dedup_loop_contest [of "[]" "{}" "take k ?xs"] by (simp add: accepted_after_def)
  show "\<forall>e\<in>set (accepted_after k sections). start_pos e \<le> start_pos (?xs ! k)"
  proof
    fix e assume "e \<in> set (accepted_after k sections)"
    with sub have "e \<in> set (take k ?xs)" by blast
    then obtain j where j: "j < k" "j < length ?xs" "e = ?xs ! j"
      by (auto simp: in_set_conv_nth)
    from srt j k have "map start_pos ?xs ! j \<le> map start_pos ?xs ! k"
      by (intro sorted_nth_mono) simp_all
    with j k show "start_pos e \<le> start_pos (?xs ! k)" by simp
  qed
qed

text \<open>In a chain of sections that start at or before the new one, the new one can start
  inside one member only, and that member is never passed over: the pass meets it, and
  either removes it, then runs off the end of the list without a flag, or raises the flag
  and leaves the list as it was.\<close>

lemma dedup_scan_contested:
  assumes "sorted_wrt before d"
    and "\<forall>e\<in>set d. start_pos e \<le> start_pos s"
    and "\<forall>k<i. k < length d \<longrightarrow> end_pos (d ! k) \<le> start_pos s"
    and "e \<in> set d"
    and "contested s e"
  shows "dedup_scan s d i =
    (if confidence s > confidence e then (remove1 e d, False) else (d, True))"
  using assms
proof (induction s d i rule: dedup_scan.induct)
  case (1 s d i)
  from "1.prems"(4) obtain m where m: "m < length d" "d ! m = e"
    by (auto simp: in_set_conv_nth)
  have inside: "start_pos s < end_pos e" using "1.prems"(5) by (simp add: contested_def)
  have mi: "i \<le> m"
  proof (rule ccontr)
    assume "\<not> i \<le> m"
    with "1.prems"(3) m have "end_pos e \<le> start_pos s" by auto
    with inside show False by simp
  qed
  with m have True: "i < length d" by simp
  let ?e = "d ! i"
  show ?case
  proof (cases "start_pos s \<ge> start_pos ?e \<and> start_pos s < end_pos ?e")
    case False
    have r: "dedup_scan s d i = dedup_scan s d (i + 1)"
      using True False by (auto simp add: dedup_scan.simps [of s d i] Let_def)
    from False "1.prems"(2) True have "end_pos ?e \<le> start_pos s" by auto
    with "1.prems"(3) have "\<forall>k<i + 1. k < length d \<longrightarrow> end_pos (d ! k) \<le> start_pos s"
      by (auto simp: less_Suc_eq)
    from "1.IH"(2) [OF True refl False "1.prems"(1,2) this "1.prems"(4,5)] r
    show ?thesis by simp
  next
    case hit: True
    have eq: "?e = e"
    proof (rule ccontr)
      assume ne: "?e \<noteq> e"
      with m mi have "i < m" by (cases "i = m") auto
      with "1.prems"(1) m have "before ?e e"
        by (auto simp: sorted_wrt_iff_nth_less)
      moreover have "start_pos e \<le> start_pos s" using "1.prems"(2,4) by simp
      ultimately show False using hit by (simp add: before_def)
    qed
    show ?thesis
    proof (cases "confidence s > confidence ?e")
      case False
      with hit True eq show ?thesis
        by (simp add: dedup_scan.simps [of s d i] Let_def)
    next
      case gt: True
      have r: "dedup_scan s d i = dedup_scan s (remove1 ?e d) (i + 1)"
        using True hit gt by (simp add: dedup_scan.simps [of s d i] Let_def)
      have last: "Suc i = length d"
      proof (rule ccontr)
        assume "Suc i \<noteq> length d"
        with True have j: "Suc i < length d" by simp
        with "1.prems"(1) have "before ?e (d ! Suc i)"
          by (simp add: sorted_wrt_iff_nth_less)
        moreover have "start_pos (d ! Suc i) \<le> start_pos s"
          using "1.prems"(2) j by simp
        ultimately show False using hit by (simp add: before_def)
      qed
      have len: "length (remove1 ?e d) = i"
        using True last by (simp add: length_remove1)
      have "dedup_scan s (remove1 ?e d) (Suc i) = (remove1 ?e d, False)"
        by (simp add: dedup_scan.simps [of s "remove1 ?e d" "Suc i"] len)
      with r gt eq show ?thesis by simp
    qed
  qed
qed

text \<open>An accepted section whose range the new one contests occurs once in the list.\<close>

lemma contested_once:
  assumes "sorted_wrt before d" and "e \<in> set d" and "contested s e"
  shows "e \<notin> set (remove1 e d)"
proof
  assume "e \<in> set (remove1 e d)"
  from assms(2) obtain ys zs where d: "d = ys @ e # zs" "e \<notin> set ys"
    by (auto dest: split_list_first)
  with \<open>e \<in> set (remove1 e d)\<close> have "e \<in> set zs" by (simp add: remove1_append)
  with assms(1) d have "before e e" by (simp add: sorted_wrt_append)
  with assms(3) show False by (simp add: before_def contested_def)
qed

text \<open>One iteration of the outer loop on a contest.\<close>

lemma accepted_after_contest:
  assumes "k < length sections"
    and "existing \<in> set (accepted_after k sections)"
    and "contested (sort_key start_pos sections ! k) existing"
  shows "accepted_after (Suc k) sections =
    (if confidence (sort_key start_pos sections ! k) > confidence existing
     then remove1 existing (accepted_after k sections) @ [sort_key start_pos sections ! k]
     else accepted_after k sections)"
proof -
  note ch = accepted_after_chain [OF assms(1)]
  have "dedup_scan (sort_key start_pos sections ! k) (accepted_after k sections) 0 =
    (if confidence (sort_key start_pos sections ! k) > confidence existing
     then (remove1 existing (accepted_after k sections), False)
     else (accepted_after k sections, True))"
    by (rule dedup_scan_contested [OF ch(1) ch(2) _ assms(2,3)]) simp
  then show ?thesis by (simp add: accepted_after_Suc [OF assms(1)])
qed

lemma lost_to_confidence: "lost_to c x y \<Longrightarrow> confidence x \<le> confidence y"
  by (induction rule: lost_to.induct) (auto simp: beaten_by_def)

lemma lost_to_trans: "lost_to c x y \<Longrightarrow> lost_to c y z \<Longrightarrow> lost_to c x z"
  by (induction rule: lost_to.induct) (auto intro: lost_to.chain)

lemma lost_to_mono: "lost_to c x y \<Longrightarrow> c \<subseteq> c' \<Longrightarrow> lost_to c' x y"
  by (induction rule: lost_to.induct) (auto intro: lost_to.intros)

text \<open>Every candidate handled so far that is not in the accepted list is outranked by a
  member of the list.\<close>

lemma dedup_loop_outranked:
  assumes "set d \<subseteq> seen"
    and "\<forall>x\<in>seen. x \<notin> set d \<longrightarrow> (\<exists>y\<in>set d. lost_to seen x y)"
  shows "\<forall>x\<in>seen \<union> set rest. x \<notin> set (dedup_loop rest d) \<longrightarrow>
            (\<exists>y\<in>set (dedup_loop rest d). lost_to (seen \<union> set rest) x y)"
  using assms
proof (induction rest arbitrary: d seen)
  case Nil
  then show ?case by simp
next
  case (Cons s rest)
  obtain d' ov where sc: "dedup_scan s d 0 = (d', ov)" by (cases "dedup_scan s d 0")
  note c = dedup_scan_contest [OF sc]
  let ?d = "if \<not> ov then d' @ [s] else d'"
  let ?seen = "insert s seen"
  have 1: "set ?d \<subseteq> ?seen" using c Cons.prems(1) by auto
  have s_out: "\<exists>y\<in>set ?d. y = s \<or> lost_to ?seen s y"
  proof (cases ov)
    case False
    then show ?thesis by simp
  next
    case True
    with c obtain e where e: "e \<in> set d'" "beaten_by s e" by (auto simp: beaten_by_def)
    with 1 True have "e \<in> ?seen" by auto
    with e have "lost_to ?seen s e" by (intro lost_to.contest)
    with e True show ?thesis by auto
  qed
  have evicted: "\<exists>y\<in>set ?d. lost_to ?seen x y" if x: "x \<in> set d" "x \<notin> set ?d" for x
  proof -
    from x have "x \<notin> set d'" by (auto split: if_splits)
    with x c have b: "beaten_by x s" by (auto simp: beaten_by_def)
    then have xs: "lost_to ?seen x s" by (intro lost_to.contest) simp
    from s_out obtain y where y: "y \<in> set ?d" "y = s \<or> lost_to ?seen s y" by blast
    then show ?thesis
    proof (cases "y = s")
      case True
      with xs y show ?thesis by blast
    next
      case False
      with y have "lost_to ?seen s y" by simp
      with xs have "lost_to ?seen x y" by (rule lost_to_trans)
      with y show ?thesis by blast
    qed
  qed
  have 2: "\<forall>x\<in>?seen. x \<notin> set ?d \<longrightarrow> (\<exists>y\<in>set ?d. lost_to ?seen x y)"
  proof (intro ballI impI)
    fix x assume x: "x \<in> ?seen" "x \<notin> set ?d"
    show "\<exists>y\<in>set ?d. lost_to ?seen x y"
    proof (cases "x \<in> set d")
      case True
      with x show ?thesis by (intro evicted)
    next
      case False
      show ?thesis
      proof (cases "x \<in> seen")
        case True
        with False Cons.prems(2) obtain y where y: "y \<in> set d" "lost_to seen x y" by blast
        then have xy: "lost_to ?seen x y" by (rule_tac lost_to_mono) auto
        show ?thesis
        proof (cases "y \<in> set ?d")
          case True
          with xy show ?thesis by blast
        next
          case False
          with y evicted obtain z where "z \<in> set ?d" "lost_to ?seen y z" by blast
          with xy show ?thesis by (blast intro: lost_to_trans)
        qed
      next
        case False
        with x have "x = s" by simp
        with s_out x show ?thesis by blast
      qed
    qed
  qed
  have "\<forall>x\<in>?seen \<union> set rest. x \<notin> set (dedup_loop rest ?d) \<longrightarrow>
          (\<exists>y\<in>set (dedup_loop rest ?d). lost_to (?seen \<union> set rest) x y)"
    using 1 2 by (rule Cons.IH)
  moreover have "dedup_loop (s # rest) d = dedup_loop rest ?d" using sc by simp
  moreover have "?seen \<union> set rest = seen \<union> set (s # rest)" by simp
  ultimately show ?case by simp
qed

text \<open>
  \<^bold>\<open>Claim C1.\<close> Deduplicator invariant, for every input list of candidate sections.
  (1) The list returned by \<^verbatim>\<open>_deduplicate_sections\<close> has no two members whose ranges
  \<open>[start_pos, end_pos)\<close> overlap. (2) The returned list is the accepted list after the last
  iteration, and in every iteration, whenever the candidate handled contests the range of
  an accepted section, the iteration is decided by the confidences: if the candidate is
  strictly more confident, the accepted section is evicted, no copy of it stays, and the
  candidate is appended; otherwise the accepted section, whose confidence is greater than
  or equal to the candidate's, stays and the candidate is rejected, so the list does not
  change. (3) Every candidate that is missing from the returned list is outranked by a
  member of it: a chain of contests, each lost to a candidate of greater or equal
  confidence, leads from the missing candidate to a kept one, whose confidence is
  therefore greater than or equal to its own.
\<close>

theorem deduplicate_sections_invariant:
  "(\<forall>i j. i < j \<longrightarrow> j < length (deduplicate_sections sections) \<longrightarrow>
      \<not> ranges_overlap (deduplicate_sections sections ! i) (deduplicate_sections sections ! j)) \<and>
   accepted_after (length sections) sections = deduplicate_sections sections \<and>
   (\<forall>k<length sections. \<forall>existing\<in>set (accepted_after k sections).
      contested (sort_key start_pos sections ! k) existing \<longrightarrow>
        accepted_after (Suc k) sections =
          (if confidence (sort_key start_pos sections ! k) > confidence existing
           then remove1 existing (accepted_after k sections) @ [sort_key start_pos sections ! k]
           else accepted_after k sections) \<and>
        (confidence (sort_key start_pos sections ! k) > confidence existing \<longrightarrow>
           existing \<notin> set (accepted_after (Suc k) sections))) \<and>
   (\<forall>x\<in>set sections. x \<notin> set (deduplicate_sections sections) \<longrightarrow>
      (\<exists>y\<in>set (deduplicate_sections sections).
         lost_to (set sections) x y \<and> confidence x \<le> confidence y))"
proof (intro conjI allI ballI impI)
  fix i j :: nat
  assume ij: "i < j" "j < length (deduplicate_sections sections)"
  let ?r = "dedup_loop (sort_key start_pos sections) []"
  have r: "deduplicate_sections sections = ?r" by (simp add: deduplicate_sections_def)
  have "sorted_wrt before ?r"
    by (rule dedup_loop_chain) simp_all
  with ij show "\<not> ranges_overlap (deduplicate_sections sections ! i)
      (deduplicate_sections sections ! j)"
    unfolding r by (auto simp: sorted_wrt_iff_nth_less before_no_overlap)
next
  show "accepted_after (length sections) sections = deduplicate_sections sections"
    by (rule accepted_after_length)
next
  fix k existing
  assume k: "k < length sections" and a: "existing \<in> set (accepted_after k sections)"
    "contested (sort_key start_pos sections ! k) existing"
  show "accepted_after (Suc k) sections =
          (if confidence (sort_key start_pos sections ! k) > confidence existing
           then remove1 existing (accepted_after k sections) @ [sort_key start_pos sections ! k]
           else accepted_after k sections)"
    by (rule accepted_after_contest [OF k a])
next
  fix k existing
  assume k: "k < length sections" and a: "existing \<in> set (accepted_after k sections)"
    "contested (sort_key start_pos sections ! k) existing"
    and gt: "confidence (sort_key start_pos sections ! k) > confidence existing"
  have "existing \<notin> set (remove1 existing (accepted_after k sections))"
    by (rule contested_once [OF accepted_after_chain(1) [OF k] a])
  with gt show "existing \<notin> set (accepted_after (Suc k) sections)"
    by (auto simp: accepted_after_contest [OF k a])
next
  fix x assume x: "x \<in> set sections" "x \<notin> set (deduplicate_sections sections)"
  let ?xs = "sort_key start_pos sections"
  have r: "deduplicate_sections sections = dedup_loop ?xs []"
    by (simp add: deduplicate_sections_def)
  have "\<forall>x\<in>{} \<union> set ?xs. x \<notin> set (dedup_loop ?xs []) \<longrightarrow>
          (\<exists>y\<in>set (dedup_loop ?xs []). lost_to ({} \<union> set ?xs) x y)"
    by (rule dedup_loop_outranked) simp_all
  with x obtain y where y: "y \<in> set (deduplicate_sections sections)" "lost_to (set sections) x y"
    unfolding r by auto
  from y(2) have "confidence x \<le> confidence y" by (rule lost_to_confidence)
  with y show "\<exists>y\<in>set (deduplicate_sections sections).
         lost_to (set sections) x y \<and> confidence x \<le> confidence y" by blast
qed

text \<open>On the example the section at 0 to 100 first rejects the one at 10 to 20 and is then
  evicted by the more confident one at 50 to 60; two disjoint sections remain, and the
  rejected one at 10 to 20 is outranked by one of them.\<close>

theorem deduplicate_sections_invariant_witness:
  "deduplicate_sections example_candidates =
     [example_candidates ! 0, example_candidates ! 1] \<and>
   \<not> ranges_overlap (deduplicate_sections example_candidates ! 0)
       (deduplicate_sections example_candidates ! 1) \<and>
   accepted_after (length example_candidates) example_candidates =
     deduplicate_sections example_candidates \<and>
   sort_key start_pos example_candidates ! 1 = example_candidates ! 3 \<and>
   accepted_after 1 example_candidates = [example_candidates ! 2] \<and>
   contested (example_candidates ! 3) (example_candidates ! 2) \<and>
   confidence (example_candidates ! 3) \<le> confidence (example_candidates ! 2) \<and>
   accepted_after 2 example_candidates = accepted_after 1 example_candidates \<and>
   sort_key start_pos example_candidates ! 2 = example_candidates ! 0 \<and>
   contested (example_candidates ! 0) (example_candidates ! 2) \<and>
   confidence (example_candidates ! 0) > confidence (example_candidates ! 2) \<and>
   accepted_after 3 example_candidates =
     remove1 (example_candidates ! 2) (accepted_after 2 example_candidates) @
       [example_candidates ! 0] \<and>
   example_candidates ! 2 \<notin> set (accepted_after 3 example_candidates) \<and>
   example_candidates ! 3 \<in> set example_candidates \<and>
   example_candidates ! 3 \<notin> set (deduplicate_sections example_candidates) \<and>
   (\<exists>y\<in>set (deduplicate_sections example_candidates).
      lost_to (set example_candidates) (example_candidates ! 3) y \<and>
      confidence (example_candidates ! 3) \<le> confidence y)"
proof -
  note inv = deduplicate_sections_invariant [of example_candidates]
  have ev: "deduplicate_sections example_candidates =
      [example_candidates ! 0, example_candidates ! 1]"
    by code_simp
  have len: "length example_candidates = 4" by (simp add: example_candidates_def)
  have s1: "sort_key start_pos example_candidates ! 1 = example_candidates ! 3" by code_simp
  have s2: "sort_key start_pos example_candidates ! 2 = example_candidates ! 0" by code_simp
  have a1: "accepted_after 1 example_candidates = [example_candidates ! 2]" by code_simp
  have a2: "accepted_after 2 example_candidates = [example_candidates ! 2]" by code_simp
  have c1: "contested (example_candidates ! 3) (example_candidates ! 2)"
    by (simp add: contested_def example_candidates_def)
  have c2: "contested (example_candidates ! 0) (example_candidates ! 2)"
    by (simp add: contested_def example_candidates_def)
  have g1: "confidence (example_candidates ! 3) \<le> confidence (example_candidates ! 2)"
    by (simp add: example_candidates_def)
  have g2: "confidence (example_candidates ! 0) > confidence (example_candidates ! 2)"
    by (simp add: example_candidates_def)
  have m: "example_candidates ! 3 \<in> set example_candidates"
    by (simp add: example_candidates_def)
  have n: "example_candidates ! 3 \<notin> set (deduplicate_sections example_candidates)"
    unfolding ev by (simp add: example_candidates_def)
  have l: "(0::nat) < 1" "1 < length (deduplicate_sections example_candidates)"
    unfolding ev by simp_all
  from inv l have no: "\<not> ranges_overlap (deduplicate_sections example_candidates ! 0)
       (deduplicate_sections example_candidates ! 1)"
    by blast
  from inv have fin: "accepted_after (length example_candidates) example_candidates =
     deduplicate_sections example_candidates"
    by (rule conjunct2 [THEN conjunct1])
  from inv have step: "\<And>k existing. k < length example_candidates \<Longrightarrow>
      existing \<in> set (accepted_after k example_candidates) \<Longrightarrow>
      contested (sort_key start_pos example_candidates ! k) existing \<Longrightarrow>
      accepted_after (Suc k) example_candidates =
          (if confidence (sort_key start_pos example_candidates ! k) > confidence existing
           then remove1 existing (accepted_after k example_candidates) @
             [sort_key start_pos example_candidates ! k]
           else accepted_after k example_candidates) \<and>
        (confidence (sort_key start_pos example_candidates ! k) > confidence existing \<longrightarrow>
           existing \<notin> set (accepted_after (Suc k) example_candidates))"
    by blast
  have i1: "1 < length example_candidates" and i2: "2 < length example_candidates"
    by (simp_all add: len)
  have m1: "example_candidates ! 2 \<in> set (accepted_after 1 example_candidates)"
    unfolding a1 by simp
  have m2: "example_candidates ! 2 \<in> set (accepted_after 2 example_candidates)"
    unfolding a2 by simp
  have d1: "contested (sort_key start_pos example_candidates ! 1) (example_candidates ! 2)"
    unfolding s1 by (rule c1)
  have d2: "contested (sort_key start_pos example_candidates ! 2) (example_candidates ! 2)"
    unfolding s2 by (rule c2)
  have n1: "\<not> confidence (example_candidates ! 3) > confidence (example_candidates ! 2)"
    using g1 by simp
  have suc: "Suc 1 = 2" "Suc 2 = 3" by simp_all
  have k1: "accepted_after 2 example_candidates = accepted_after 1 example_candidates"
    using step [OF i1 m1 d1, THEN conjunct1] unfolding s1 suc by (simp only: n1 if_False)
  have k2: "accepted_after 3 example_candidates =
     remove1 (example_candidates ! 2) (accepted_after 2 example_candidates) @
       [example_candidates ! 0]"
    using step [OF i2 m2 d2, THEN conjunct1] unfolding s2 suc by (simp only: g2 if_True)
  have k3: "example_candidates ! 2 \<notin> set (accepted_after 3 example_candidates)"
    using step [OF i2 m2 d2, THEN conjunct2] g2 unfolding s2 suc by (rule mp)
  from inv m n have out: "\<exists>y\<in>set (deduplicate_sections example_candidates).
      lost_to (set example_candidates) (example_candidates ! 3) y \<and>
      confidence (example_candidates ! 3) \<le> confidence y"
    by blast
  from ev no fin s1 a1 c1 g1 k1 s2 c2 g2 k2 k3 m n out show ?thesis by (intro conjI)
qed
section \<open>Floating point\<close>

lemma bitlen_powi_bounds:
  assumes "0 < p"
  shows "(2::rat) powi (bitlen p - 1) \<le> of_int p" "of_int p < (2::rat) powi (bitlen p)"
proof -
  from bitlen_bounds [OF assms]
  have a: "2 ^ nat (bitlen p - 1) \<le> p" and b: "p < 2 ^ nat (bitlen p)" by simp_all
  have pos: "1 \<le> bitlen p" using assms by (simp add: bitlen_alt_def)
  have "(of_int (2 ^ nat (bitlen p - 1)) :: rat) \<le> of_int p" using a by (simp only: of_int_le_iff)
  then show "(2::rat) powi (bitlen p - 1) \<le> of_int p"
    using pos by (simp add: power_int_nonneg_exp)
  have "(of_int p :: rat) < of_int (2 ^ nat (bitlen p))" using b by (simp only: of_int_less_iff)
  then show "of_int p < (2::rat) powi (bitlen p)"
    using pos by (simp add: power_int_nonneg_exp)
qed

lemma float_exponent_bounds:
  assumes "0 < x"
  shows "2 powi (float_exponent x) \<le> x \<and> x < 2 powi (float_exponent x + 1)"
proof -
  obtain p q where pq: "quotient_of x = (p, q)" by (cases "quotient_of x")
  then have q: "0 < q" and x: "x = of_int p / of_int q"
    by (simp_all add: quotient_of_denom_pos quotient_of_div)
  from assms x q have p: "0 < p" by (simp add: zero_less_divide_iff)
  let ?d = "bitlen p - bitlen q"
  note bp = bitlen_powi_bounds [OF p] and bq = bitlen_powi_bounds [OF q]
  have qpos: "(0::rat) < of_int q" using q by simp
  have up: "x < 2 powi (?d + 1)"
  proof -
    have "x < 2 powi (bitlen p) / 2 powi (bitlen q - 1)"
      unfolding x using bp(2) bq(1) p
      by (intro frac_less) simp_all
    also have "\<dots> = 2 powi (?d + 1)"
      by (simp add: power_int_diff [symmetric] algebra_simps)
    finally show ?thesis .
  qed
  have lo: "2 powi (?d - 1) < x"
  proof -
    have "2 powi (bitlen p - 1) / 2 powi (bitlen q) < x"
      unfolding x using bp(1) bq(2) qpos
      by (intro frac_less2) simp_all
    moreover have "(2::rat) powi (bitlen p - 1) / 2 powi (bitlen q) = 2 powi (?d - 1)"
      by (simp add: power_int_diff [symmetric] algebra_simps)
    ultimately show ?thesis by simp
  qed
  show ?thesis
  proof (cases "2 powi ?d \<le> x")
    case True
    then have "float_exponent x = ?d" by (simp add: float_exponent_def pq)
    with True up show ?thesis by simp
  next
    case False
    then have "float_exponent x = ?d - 1" by (simp add: float_exponent_def pq)
    with False lo show ?thesis by (simp add: less_imp_le)
  qed
qed

lemma round_half_even_bounds:
  "of_int (round_half_even x) \<le> x + 1 / 2" "x - 1 / 2 \<le> of_int (round_half_even x)"
proof -
  have f: "of_int \<lfloor>x\<rfloor> \<le> x" "x < of_int \<lfloor>x\<rfloor> + 1" by linarith+
  show "of_int (round_half_even x) \<le> x + 1 / 2"
    unfolding round_half_even_def Let_def using f by (auto; linarith)
  show "x - 1 / 2 \<le> of_int (round_half_even x)"
    unfolding round_half_even_def Let_def using f by (auto; linarith)
qed

lemma round_half_even_of_int: "round_half_even (of_int k) = k"
  by (simp add: round_half_even_def)

lemma round_half_even_mono:
  assumes "x \<le> y"
  shows "round_half_even x \<le> round_half_even y"
proof (cases "\<lfloor>x\<rfloor> = \<lfloor>y\<rfloor>")
  case True
  with assms show ?thesis by (auto simp: round_half_even_def Let_def)
next
  case False
  with assms have lt: "\<lfloor>x\<rfloor> + 1 \<le> \<lfloor>y\<rfloor>" using floor_mono [OF assms] by linarith
  have "round_half_even x \<le> \<lfloor>x\<rfloor> + 1" by (auto simp: round_half_even_def Let_def)
  moreover have "\<lfloor>y\<rfloor> \<le> round_half_even y" by (auto simp: round_half_even_def Let_def)
  ultimately show ?thesis using lt by linarith
qed


lemma fl_pos_eq:
  "0 < x \<Longrightarrow> fl x = of_int (round_half_even (x / 2 powi (float_exponent x - 52)))
                       * 2 powi (float_exponent x - 52)"
  by (simp add: fl_def Let_def)

lemma powi2_add: "(2::rat) powi (a + b) = 2 powi a * 2 powi b"
  by (simp add: power_int_add)

lemma powi2_less_imp: "(2::rat) powi a < 2 powi b \<Longrightarrow> a < b"
proof (rule ccontr)
  assume lt: "(2::rat) powi a < 2 powi b" and "\<not> a < b"
  then have "b \<le> a" by simp
  then have "(2::rat) powi b \<le> 2 powi a" by (intro power_int_increasing) simp_all
  with lt show False by simp
qed

lemma powi_split52: "(2::rat) powi e = 2 ^ 52 * 2 powi (e - 52)"
proof -
  have "(2::rat) powi e = 2 powi (52 + (e - 52))"
    by (rule arg_cong [where f = "\<lambda>k. 2 powi k"]) simp
  also have "\<dots> = 2 powi 52 * 2 powi (e - 52)" by (rule powi2_add)
  finally show ?thesis by simp
qed

lemma powi_split53: "(2::rat) powi (e + 1) = 2 ^ 53 * 2 powi (e - 52)"
proof -
  have "(2::rat) powi (e + 1) = 2 powi (53 + (e - 52))"
    by (rule arg_cong [where f = "\<lambda>k. 2 powi k"]) simp
  also have "\<dots> = 2 powi 53 * 2 powi (e - 52)" by (rule powi2_add)
  finally show ?thesis by simp
qed

lemma fl_range:
  assumes "0 < x"
  shows "2 powi (float_exponent x) \<le> fl x" "fl x \<le> 2 powi (float_exponent x + 1)"
proof -
  let ?e = "float_exponent x"
  let ?u = "(2::rat) powi (?e - 52)"
  have u: "0 < ?u" by (simp add: zero_less_power_int)
  from float_exponent_bounds [OF assms]
  have lo: "2 powi ?e \<le> x" and hi: "x < 2 powi (?e + 1)" by simp_all
  have e: "(2::rat) powi ?e = 2 ^ 52 * ?u" by (rule powi_split52)
  have e1: "(2::rat) powi (?e + 1) = 2 ^ 53 * ?u" by (rule powi_split53)
  have "of_int (2 ^ 52) \<le> x / ?u" using lo u unfolding e by (simp add: pos_le_divide_eq)
  from round_half_even_mono [OF this]
  have a: "2 ^ 52 \<le> round_half_even (x / ?u)" by (simp only: round_half_even_of_int)
  have "x / ?u \<le> of_int (2 ^ 53)" using hi u unfolding e1 by (simp add: pos_divide_le_eq)
  from round_half_even_mono [OF this]
  have b: "round_half_even (x / ?u) \<le> 2 ^ 53" by (simp only: round_half_even_of_int)
  have flx: "fl x = of_int (round_half_even (x / ?u)) * ?u" by (rule fl_pos_eq [OF assms])
  have "(of_int (2 ^ 52) :: rat) \<le> of_int (round_half_even (x / ?u))"
    using a by (simp only: of_int_le_iff)
  then have "of_int (2 ^ 52) * ?u \<le> of_int (round_half_even (x / ?u)) * ?u"
    using u by (intro mult_right_mono) simp_all
  then show "2 powi ?e \<le> fl x" unfolding flx e by simp
  have "(of_int (round_half_even (x / ?u)) :: rat) \<le> of_int (2 ^ 53)"
    using b by (simp only: of_int_le_iff)
  then have "of_int (round_half_even (x / ?u)) * ?u \<le> of_int (2 ^ 53) * ?u"
    using u by (intro mult_right_mono) simp_all
  then show "fl x \<le> 2 powi (?e + 1)" unfolding flx e1 by simp
qed

lemma fl_zero: "fl 0 = 0"
  by (simp add: fl_def)

lemma fl_nonneg: "0 \<le> x \<Longrightarrow> 0 \<le> fl x"
proof (cases "x = 0")
  case True
  then show ?thesis by (simp add: fl_zero)
next
  case False
  assume "0 \<le> x"
  with False have "0 < x" by simp
  from fl_range(1) [OF this] have "2 powi float_exponent x \<le> fl x" .
  moreover have "(0::rat) < 2 powi float_exponent x" by (simp add: zero_less_power_int)
  ultimately show ?thesis by linarith
qed

lemma fl_mono_pos:
  assumes "0 < x" "x \<le> y"
  shows "fl x \<le> fl y"
proof -
  from assms have y: "0 < y" by simp
  note bx = float_exponent_bounds [OF assms(1)] and bnd = float_exponent_bounds [OF y]
  have "(2::rat) powi float_exponent x < 2 powi (float_exponent y + 1)"
    using bx bnd assms(2) by linarith
  then have le: "float_exponent x \<le> float_exponent y"
    using powi2_less_imp by fastforce
  show ?thesis
  proof (cases "float_exponent x = float_exponent y")
    case True
    let ?u = "(2::rat) powi (float_exponent y - 52)"
    have u: "0 < ?u" by (simp add: zero_less_power_int)
    have "x / ?u \<le> y / ?u" using assms(2) u by (simp add: divide_right_mono)
    from round_half_even_mono [OF this]
    have "(of_int (round_half_even (x / ?u)) :: rat) \<le> of_int (round_half_even (y / ?u))"
      by (simp only: of_int_le_iff)
    then show ?thesis using u assms(1) y by (simp add: fl_pos_eq True)
  next
    case False
    with le have "float_exponent x + 1 \<le> float_exponent y" by simp
    then have "(2::rat) powi (float_exponent x + 1) \<le> 2 powi float_exponent y"
      by (intro power_int_increasing) simp_all
    with fl_range(2) [OF assms(1)] fl_range(1) [OF y] show ?thesis by linarith
  qed
qed

lemma fl_mono: "0 \<le> x \<Longrightarrow> x \<le> y \<Longrightarrow> fl x \<le> fl y"
  by (cases "x = 0") (auto simp: fl_zero fl_nonneg fl_mono_pos)

lemma fl_error:
  assumes "0 < x"
  shows "\<bar>fl x - x\<bar> \<le> x / 2 ^ 53"
proof -
  let ?e = "float_exponent x"
  let ?u = "(2::rat) powi (?e - 52)"
  have u: "0 < ?u" by (simp add: zero_less_power_int)
  from float_exponent_bounds [OF assms] have lo: "2 ^ 52 * ?u \<le> x"
    using powi_split52 [of ?e] by simp
  note r = round_half_even_bounds [of "x / ?u"]
  have "\<bar>of_int (round_half_even (x / ?u)) - x / ?u\<bar> \<le> 1 / 2" using r by linarith
  then have "\<bar>of_int (round_half_even (x / ?u)) - x / ?u\<bar> * ?u \<le> 1 / 2 * ?u"
    using u by (simp only: mult_le_cancel_right_pos)
  moreover have "\<bar>of_int (round_half_even (x / ?u)) - x / ?u\<bar> * ?u = \<bar>fl x - x\<bar>"
  proof -
    have "\<bar>of_int (round_half_even (x / ?u)) - x / ?u\<bar> * ?u
        = \<bar>(of_int (round_half_even (x / ?u)) - x / ?u) * ?u\<bar>"
      using u by (simp add: abs_mult)
    also have "(of_int (round_half_even (x / ?u)) - x / ?u) * ?u = fl x - x"
      using u assms by (simp add: fl_pos_eq left_diff_distrib)
    finally show ?thesis .
  qed
  ultimately have "\<bar>fl x - x\<bar> \<le> ?u / 2" by simp
  also have "\<dots> \<le> x / 2 ^ 53" using lo by simp
  finally show ?thesis .
qed

lemma fl_of_int:
  assumes "0 \<le> n" "n < 2 ^ 53"
  shows "fl (of_int n) = of_int n"
proof (cases "n = 0")
  case True
  then show ?thesis by (simp add: fl_zero)
next
  case False
  with assms have n: "(0::rat) < of_int n" and n1: "(1::rat) \<le> of_int n" by simp_all
  let ?e = "float_exponent (of_int n)"
  let ?u = "(2::rat) powi (?e - 52)"
  from float_exponent_bounds [OF n]
  have lo: "2 powi ?e \<le> (of_int n :: rat)" and hi: "(of_int n :: rat) < 2 powi (?e + 1)"
    by simp_all
  have "(of_int n :: rat) < of_int (2 ^ 53)" using assms(2) by (simp only: of_int_less_iff)
  with lo have "(2::rat) powi ?e < 2 powi 53" by simp
  then have e: "?e \<le> 52" using powi2_less_imp by fastforce
  define k where "k = nat (52 - ?e)"
  have ek: "?e - 52 = - int k" using e by (simp add: k_def)
  have u: "?u = 1 / 2 ^ k" unfolding ek by (simp add: power_int_minus_divide)
  have "of_int n / ?u = (of_int (n * 2 ^ k) :: rat)" unfolding u by simp
  then have "round_half_even (of_int n / ?u) = n * 2 ^ k"
    by (simp only: round_half_even_of_int)
  then have "fl (of_int n) = of_int (n * 2 ^ k) * ?u"
    using n by (simp only: fl_pos_eq)
  also have "\<dots> = of_int n" unfolding u by simp
  finally show ?thesis .
qed

section \<open>The confidence scorer\<close>

lemma count_hits_eq:
  "count_hits phrases t score =
     score + int (length (filter (\<lambda>phrase. sublist (lower phrase) t) phrases))"
  by (induction phrases arbitrary: score) simp_all

lemma truediv_nonneg: "0 \<le> a \<Longrightarrow> 0 < b \<Longrightarrow> 0 \<le> truediv a b"
  by (simp add: truediv_def fl_nonneg)

lemma fl_06: "fl (fl (6 / 10)) = fl (6 / 10)" "0 \<le> fl (6 / 10)"
  by code_simp+

lemma fl_04: "fl (fl (4 / 10)) = fl (4 / 10)" "0 \<le> fl (4 / 10)"
  by code_simp+

lemma fl_06_04: "fl (fl (6 / 10) + fl (4 / 10)) = 1"
  by code_simp

lemma fmul_weight_bounds:
  assumes "0 \<le> c" "c \<le> 1" "0 \<le> w" "fl w = w"
  shows "0 \<le> fmul c w \<and> fmul c w \<le> w"
proof -
  have "0 \<le> c * w" using assms by simp
  moreover have "c * w \<le> w" using assms by (simp add: mult_left_le_one_le)
  ultimately show ?thesis
    using fl_nonneg [of "c * w"] fl_mono [of "c * w" w] assms(4) by (simp add: fmul_def)
qed

lemma weighted_sum_bounds:
  assumes "0 \<le> kc" "kc \<le> 1" "0 \<le> ic" "ic \<le> 1"
  shows "0 \<le> fadd (fmul kc (fl (6 / 10))) (fmul ic (fl (4 / 10))) \<and>
         fadd (fmul kc (fl (6 / 10))) (fmul ic (fl (4 / 10))) \<le> 1"
proof -
  note k = fmul_weight_bounds [OF assms(1,2) fl_06(2) fl_06(1)]
    and i = fmul_weight_bounds [OF assms(3,4) fl_04(2) fl_04(1)]
  let ?s = "fmul kc (fl (6 / 10)) + fmul ic (fl (4 / 10))"
  have s0: "0 \<le> ?s" using k i by linarith
  have s1: "?s \<le> fl (6 / 10) + fl (4 / 10)" using k i by linarith
  have a: "0 \<le> fl ?s" by (rule fl_nonneg [OF s0])
  have b: "fl ?s \<le> fl (fl (6 / 10) + fl (4 / 10))" by (rule fl_mono [OF s0 s1])
  from a b show ?thesis unfolding fadd_def fl_06_04 by (rule conjI)
qed

lemma calculate_confidence_bounds:
  "0 \<le> calculate_confidence text config \<and> calculate_confidence text config \<le> 1"
proof -
  have "\<And>ps. 0 \<le> min 1 (truediv (count_hits ps (lower text) 0) (max 1 (int (length ps))))"
    by (simp add: truediv_nonneg count_hits_eq)
  then show ?thesis
    unfolding calculate_confidence_def Let_def
    by (intro weighted_sum_bounds) simp_all
qed





section \<open>The span of a section\<close>

lemma rfind_last:
  assumes "p \<le> length s" "prefix sub (drop p s)"
    and "\<forall>q\<in>set [Suc p..<Suc (length s)]. \<not> prefix sub (drop q s)"
  shows "rfind s sub = int p"
proof -
  let ?P = "\<lambda>i. prefix sub (drop i s)"
  have "[0..<p + (Suc (length s) - p)] = [0..<p] @ [p..<p + (Suc (length s) - p)]"
    by (rule upt_add_eq_append) simp
  moreover have "p + (Suc (length s) - p) = Suc (length s)" using assms(1) by simp
  moreover have "[p..<Suc (length s)] = p # [Suc p..<Suc (length s)]"
    by (rule upt_conv_Cons) (use assms(1) in simp)
  ultimately have split: "[0..<Suc (length s)] = [0..<p] @ p # [Suc p..<Suc (length s)]"
    by simp
  have "filter ?P [Suc p..<Suc (length s)] = []"
    using assms(3) by (simp add: filter_empty_conv)
  then have "filter ?P [0..<Suc (length s)] = filter ?P [0..<p] @ [p]"
    unfolding split using assms(2) by simp
  then have "filter ?P (rev [0..<Suc (length s)]) = p # rev (filter ?P [0..<p])"
    by (simp only: rev_filter [symmetric] rev_append rev.simps append.simps)
  then show ?thesis by (simp only: rfind_def list.case)
qed

lemma length_strip_le: "length (strip s) \<le> length s"
proof -
  have "length (strip s) \<le> length (dropWhile isspace s)"
    unfolding strip_def by (simp only: length_rev) (metis length_dropWhile_le length_rev)
  also have "\<dots> \<le> length s" by (rule length_dropWhile_le)
  finally show ?thesis .
qed

lemma length_captured_span: "length (captured_span fi text span_start initial_end) \<le> 5000"
  by (simp add: captured_span_def slice_def Let_def)

lemma fl_07: "fl (7 / 10) = 3152519739159347 / 4503599627370496"
  by code_simp

lemma past_70_percent:
  assumes "n \<le> 5000" "7 * n < 10 * p"
  shows "fmul (float_of_int (int n)) (fl (7 / 10)) < of_int (int p)"
proof -
  have "fl (of_int (int n)) = of_int (int n)"
    by (rule fl_of_int) (use assms(1) in simp_all)
  then have n: "float_of_int (int n) = of_nat n"
    by (simp add: float_of_int_def)
  let ?x = "(of_nat n :: rat) * (3152519739159347 / 4503599627370496)"
  have fm: "fmul (float_of_int (int n)) (fl (7 / 10)) = fl ?x"
    by (simp only: fmul_def n fl_07)
  have p: "(7 * of_nat n + 1 :: rat) \<le> 10 * of_nat p"
  proof -
    have "7 * n + 1 \<le> 10 * p" using assms(2) by simp
    then have "(of_nat (7 * n + 1) :: rat) \<le> of_nat (10 * p)" by (simp only: of_nat_le_iff)
    then show ?thesis by simp
  qed
  have n5: "(of_nat n :: rat) \<le> 5000" using assms(1) by simp
  show ?thesis
  proof (cases "n = 0")
    case True
    with p show ?thesis unfolding fm by (simp add: fl_zero)
  next
    case False
    then have x: "0 < ?x" by simp
    define c where "c = (3152519739159347 / 4503599627370496 :: rat)"
    define m where "m = (of_nat n :: rat)"
    define q where "q = (of_nat p :: rat)"
    define z where "z = m * c"
    define y where "y = fl z"
    have c: "0 \<le> c" "c \<le> 7 / 10" by (simp_all add: c_def)
    have m: "0 < m" "m \<le> 5000" using n5 False by (simp_all add: m_def)
    have z0: "0 < z" using x by (simp add: z_def m_def c_def)
    have "z \<le> m * (7 / 10)" unfolding z_def using c m by (intro mult_left_mono) simp_all
    then have z1: "z \<le> 7 * m / 10" by simp
    have "z \<le> 5000 * (7 / 10)" unfolding z_def using c m by (intro mult_mono) simp_all
    then have z2: "z / 2 ^ 53 < 1 / 10" by simp
    from fl_error [OF z0] have "y - z \<le> z / 2 ^ 53" unfolding y_def by linarith
    moreover have "7 * m + 1 \<le> 10 * q" using p by (simp only: m_def q_def)
    ultimately have "y < q" using z1 z2 by linarith
    then show ?thesis unfolding fm y_def q_def z_def m_def c_def by simp
  qed
qed

lemma length_extract_full_section:
  "length (extract_full_section fi text span_start initial_end) \<le> 5000"
proof -
  let ?span = "captured_span fi text span_start initial_end"
  have len: "length ?span \<le> 5000" by (rule length_captured_span)
  have "length (strip (take (nat (rfind ?span [CHR 0x0A, CHR 0x0A])) ?span)) \<le> length ?span"
    using length_strip_le [of "take (nat (rfind ?span [CHR 0x0A, CHR 0x0A])) ?span"] by simp
  moreover have "length (strip ?span) \<le> length ?span" by (rule length_strip_le)
  ultimately have "length (strip (if b then take (nat (rfind ?span [CHR 0x0A, CHR 0x0A])) ?span
      else ?span)) \<le> length ?span" for b
    by (cases b) simp_all
  then have "length (extract_full_section fi text span_start initial_end) \<le> length ?span"
    unfolding extract_full_section_def Let_def .
  with len show ?thesis by simp
qed

lemma extract_full_section_trimmed:
  assumes lb: "last_blank_line (captured_span fi text span_start initial_end) p"
    and past: "7 * length (captured_span fi text span_start initial_end) < 10 * p"
  shows "extract_full_section fi text span_start initial_end =
           strip (take p (captured_span fi text span_start initial_end))"
proof -
  let ?span = "captured_span fi text span_start initial_end"
  have len: "length ?span \<le> 5000" by (rule length_captured_span)
  from lb have pre: "prefix [CHR 0x0A, CHR 0x0A] (drop p ?span)"
    and later: "\<forall>q\<in>set [Suc p..<Suc (length ?span)]. \<not> prefix [CHR 0x0A, CHR 0x0A] (drop q ?span)"
    by (simp_all add: last_blank_line_def)
  from pre have "p \<le> length ?span"
    by (cases "p \<le> length ?span") auto
  from rfind_last [OF this pre later] have r: "rfind ?span [CHR 0x0A, CHR 0x0A] = int p" .
  from past_70_percent [OF len past] show ?thesis
    unfolding extract_full_section_def Let_def r by simp
qed

section \<open>The confidence floor\<close>

lemma fl_03: "fl (3 / 10) = 5404319552844595 / 2 ^ 54"
  by code_simp

text \<open>No double lies strictly between the double 0.3 and the number 3/10.\<close>

lemma above_fl_03:
  assumes "0 \<le> y" "fl (3 / 10) < fl y"
  shows "3 / 10 \<le> fl y"
proof (rule ccontr)
  assume "\<not> 3 / 10 \<le> fl y"
  then have lt: "fl y < 3 / 10" by simp
  from assms(2) have gt: "5404319552844595 / 2 ^ 54 < fl y" by (simp only: fl_03)
  have "y \<noteq> 0" using gt by (auto simp: fl_zero)
  with assms(1) have y: "0 < y" by simp
  let ?e = "float_exponent y"
  define R where "R = round_half_even (y / 2 powi (?e - 52))"
  have fly: "fl y = of_int R * 2 powi (?e - 52)" unfolding R_def by (rule fl_pos_eq [OF y])
  note r = fl_range [OF y]
  have "(2::rat) powi ?e < 2 powi (- 1)"
  proof -
    have "(2::rat) powi (- 1) = 1 / 2" by (simp add: power_int_minus_divide)
    with r(1) lt show ?thesis by linarith
  qed
  then have e1: "?e < - 1" by (rule powi2_less_imp)
  have "(2::rat) powi (- 2) < 2 powi (?e + 1)"
  proof -
    have "(2::rat) powi (- 2) = 1 / 4" by (simp add: power_int_minus_divide)
    moreover have "(1 / 4 :: rat) < 5404319552844595 / 2 ^ 54" by simp
    ultimately show ?thesis using r(2) gt by linarith
  qed
  then have e2: "- 2 < ?e + 1" by (rule powi2_less_imp)
  from e1 e2 have e: "?e - 52 = - 54" by simp
  have u: "(2::rat) powi (?e - 52) = 1 / 2 ^ 54"
    unfolding e by (simp add: power_int_minus_divide)
  from gt have "(5404319552844595::rat) < of_int R" unfolding fly u by simp
  then have "(of_int 5404319552844595 :: rat) < of_int R" by simp
  then have a: "5404319552844595 < R" by (simp only: of_int_less_iff)
  from lt have "(of_int R :: rat) * 10 < 3 * 2 ^ 54" unfolding fly u by (simp add: field_simps)
  then have "(of_int (R * 10) :: rat) < of_int (3 * 2 ^ 54)" by simp
  then have b: "R * 10 < 3 * 2 ^ 54" by (simp only: of_int_less_iff)
  from a b show False by simp
qed

lemma calculate_confidence_is_float:
  "\<exists>y\<ge>0. calculate_confidence text config = fl y"
proof -
  have k: "0 \<le> fmul (min 1 (truediv (count_hits ps (lower text) 0) (max 1 (int (length ps))))) w"
    if "0 \<le> w" for ps w
    using that by (simp add: fmul_def fl_nonneg truediv_nonneg count_hits_eq)
  let ?a = "fmul (min 1 (truediv (count_hits (cfg_keywords config) (lower text) 0)
      (max 1 (int (length (cfg_keywords config)))))) (fl (6 / 10))"
  let ?b = "fmul (min 1 (truediv (count_hits (cfg_section_indicators config) (lower text) 0)
      (max 1 (int (length (cfg_section_indicators config)))))) (fl (4 / 10))"
  have "calculate_confidence text config = fl (?a + ?b)"
    unfolding calculate_confidence_def Let_def fadd_def ..
  moreover have "0 \<le> ?a + ?b"
    by (intro add_nonneg_nonneg k fl_06(2) fl_04(2))
  ultimately show ?thesis by blast
qed

lemma make_section_props:
  assumes "make_section fi text covenant_type config match = Some s"
  shows "fl (3 / 10) < confidence s" "3 / 10 \<le> confidence s"
    "0 \<le> confidence s" "confidence s \<le> 1" "start_pos s \<le> end_pos s"
    "length (content s) \<le> 5000"
proof -
  let ?c = "extract_full_section fi text (m_start match) (m_end match)"
  from assms have gt: "fl (3 / 10) < calculate_confidence ?c config"
    and conf: "confidence s = calculate_confidence ?c config"
    and pos: "start_pos s = int (m_start match)"
      "end_pos s = int (m_start match) + int (length ?c)"
    and cont: "content s = ?c"
    by (auto simp: make_section_def Let_def split: if_splits)
  show "fl (3 / 10) < confidence s" using gt conf by simp
  obtain y where "0 \<le> y" "calculate_confidence ?c config = fl y"
    using calculate_confidence_is_float by blast
  with gt above_fl_03 [of y] show "3 / 10 \<le> confidence s" unfolding conf by simp
  show "0 \<le> confidence s" "confidence s \<le> 1"
    using calculate_confidence_bounds [of ?c config] conf by simp_all
  show "start_pos s \<le> end_pos s" using pos by simp
  show "length (content s) \<le> 5000"
    unfolding cont by (rule length_extract_full_section)
qed

lemma type_sections_made:
  "s \<in> set (type_sections fi text covenant_type config) \<Longrightarrow>
     \<exists>match. make_section fi text covenant_type config match = Some s"
  by (auto simp: type_sections_def List.map_filter_def)

lemma extract_sections_made:
  assumes "s \<in> set (extract_sections fi text)"
  shows "\<exists>covenant_type config match. make_section fi text covenant_type config match = Some s"
proof -
  from assms deduplicate_sections_subset
  have "s \<in> set (concat (map (\<lambda>(covenant_type, config).
      type_sections fi text covenant_type config) covenant_patterns))"
    unfolding extract_sections_def by blast
  then obtain ct cfg where "s \<in> set (type_sections fi text ct cfg)" by auto
  from type_sections_made [OF this] show ?thesis by blast
qed

lemma extract_by_type_made:
  assumes "extract_by_type fi text covenant_type = Inr secs" "s \<in> set secs"
  shows "\<exists>config match. make_section fi text covenant_type config match = Some s"
proof -
  from assms(1) obtain config where
    "secs = deduplicate_sections (type_sections fi text covenant_type config)"
    by (auto simp: extract_by_type_def split: option.splits)
  with assms(2) deduplicate_sections_subset
  have "s \<in> set (type_sections fi text covenant_type config)" by blast
  from type_sections_made [OF this] show ?thesis by blast
qed

text \<open>
  \<^bold>\<open>Claim C6.\<close> The span-based extractor rejects every candidate below the 0.3 floor:
  every section in the list returned by \<^verbatim>\<open>extract_sections\<close>, and in the list returned by
  \<^verbatim>\<open>extract_by_type\<close> when it does not raise, has a confidence above the float \<^verbatim>\<open>0.3\<close>
  of the test, and so of at least 3/10.
\<close>

theorem confidence_floor:
  "(\<forall>s\<in>set (extract_sections fi text).
      fl (3 / 10) < confidence s \<and> 3 / 10 \<le> confidence s) \<and>
   (\<forall>secs. extract_by_type fi text covenant_type = Inr secs \<longrightarrow>
      (\<forall>s\<in>set secs. fl (3 / 10) < confidence s \<and> 3 / 10 \<le> confidence s))"
  using extract_sections_made extract_by_type_made make_section_props(1,2)
  by metis


text \<open>The example sentence yields one section, of confidence 0.44.\<close>

theorem confidence_floor_witness:
  "extract_sections example_finditer example_text =
     [\<lparr>section_type = ''liens'', title = ''Negative pledge'',
       content = ''Negative pledge: the Company shall not create any lien.'',
       start_pos = 0, end_pos = 55,
       confidence = fadd (fmul (truediv 2 5) (fl (6 / 10))) (fmul (truediv 2 4) (fl (4 / 10)))\<rparr>] \<and>
   extract_by_type example_finditer example_text ''liens'' =
     Inr (extract_sections example_finditer example_text) \<and>
   fl (3 / 10) < confidence (hd (extract_sections example_finditer example_text)) \<and>
   3 / 10 \<le> confidence (hd (extract_sections example_finditer example_text))"
proof -
  have a: "extract_sections example_finditer example_text =
     [\<lparr>section_type = ''liens'', title = ''Negative pledge'',
       content = ''Negative pledge: the Company shall not create any lien.'',
       start_pos = 0, end_pos = 55,
       confidence = fadd (fmul (truediv 2 5) (fl (6 / 10))) (fmul (truediv 2 4) (fl (4 / 10)))\<rparr>]"
    by code_simp
  have b: "extract_by_type example_finditer example_text ''liens'' =
     Inr (extract_sections example_finditer example_text)"
    by code_simp
  have "hd (extract_sections example_finditer example_text)
      \<in> set (extract_sections example_finditer example_text)"
    unfolding a by simp
  with confidence_floor [of example_finditer example_text "''liens''"] a b
  show ?thesis by blast
qed

section \<open>The length cap\<close>

text \<open>
  \<^bold>\<open>Claim C5.\<close> In the span-based extractor the content of every returned section is at
  most 5000 characters long; and when the last blank-line (paragraph) boundary of the
  captured span lies past 70% of the span, the content is the span cut back to that
  boundary (and stripped).
\<close>

theorem extract_full_section_cap:
  "length (extract_full_section fi text span_start initial_end) \<le> 5000 \<and>
   (\<forall>p. last_blank_line (captured_span fi text span_start initial_end) p \<and>
        7 * length (captured_span fi text span_start initial_end) < 10 * p \<longrightarrow>
        extract_full_section fi text span_start initial_end =
          strip (take p (captured_span fi text span_start initial_end))) \<and>
   (\<forall>s\<in>set (extract_sections fi text). length (content s) \<le> 5000) \<and>
   (\<forall>secs. extract_by_type fi text covenant_type = Inr secs \<longrightarrow>
      (\<forall>s\<in>set secs. length (content s) \<le> 5000))"
proof (intro conjI allI impI ballI)
  show "length (extract_full_section fi text span_start initial_end) \<le> 5000"
    by (rule length_extract_full_section)
next
  fix p
  assume "last_blank_line (captured_span fi text span_start initial_end) p \<and>
        7 * length (captured_span fi text span_start initial_end) < 10 * p"
  then show "extract_full_section fi text span_start initial_end =
          strip (take p (captured_span fi text span_start initial_end))"
    using extract_full_section_trimmed by blast
next
  fix s assume "s \<in> set (extract_sections fi text)"
  from extract_sections_made [OF this] obtain ct cfg m where
    "make_section fi text ct cfg m = Some s" by blast
  from make_section_props(6) [OF this] show "length (content s) \<le> 5000" .
next
  fix secs s
  assume "extract_by_type fi text covenant_type = Inr secs" "s \<in> set secs"
  from extract_by_type_made [OF this] obtain cfg m where
    "make_section fi text covenant_type cfg m = Some s" by blast
  from make_section_props(6) [OF this] show "length (content s) \<le> 5000" .
qed

text \<open>In the example the last paragraph break stands at 14 of 18 characters, and the
  content stops there.\<close>

theorem extract_full_section_cap_witness:
  "last_blank_line (captured_span no_match example_paragraphs 0 5) 14 \<and>
   7 * length (captured_span no_match example_paragraphs 0 5) < 10 * 14 \<and>
   extract_full_section no_match example_paragraphs 0 5 = ''Liens: a b c d'' \<and>
   length (extract_full_section no_match example_paragraphs 0 5) \<le> 5000"
proof -
  have sp: "captured_span no_match example_paragraphs 0 5 = example_paragraphs"
    by (simp add: captured_span_def section_boundaries_def no_match_def slice_def
        example_paragraphs_def)
  have lb: "last_blank_line (captured_span no_match example_paragraphs 0 5) 14"
    unfolding sp by code_simp
  have len: "7 * length (captured_span no_match example_paragraphs 0 5) < 10 * 14"
    unfolding sp by (simp add: example_paragraphs_def)
  have st: "strip (take 14 example_paragraphs) = ''Liens: a b c d''"
    by code_simp
  from extract_full_section_cap [of no_match example_paragraphs 0 5] lb len
  have "extract_full_section no_match example_paragraphs 0 5 =
      strip (take 14 (captured_span no_match example_paragraphs 0 5))"
    and "length (extract_full_section no_match example_paragraphs 0 5) \<le> 5000"
    by blast+
  with lb len st show ?thesis unfolding sp by simp
qed

section \<open>Regular expressions\<close>

lemma rmatches_bounds: "rmatches s r i j \<Longrightarrow> i \<le> length s \<Longrightarrow> i \<le> j \<and> j \<le> length s"
  by (induction rule: rmatches.induct) auto

text \<open>When the steps stay within the positions \<open>0, \<dots>, n\<close>, the search returns exactly
  the positions reachable from \<open>i\<close>: every round either empties the frontier or adds a
  position, and there are only \<open>n + 1\<close> positions.\<close>

lemma star_steps_closure:
  assumes bounded: "\<And>a b. a \<le> n \<Longrightarrow> b \<in> set (step a) \<Longrightarrow> b \<le> n"
    and "set frontier \<subseteq> set seen"
    and "set seen \<subseteq> {k. k \<le> n \<and> (i, k) \<in> {(a, b). b \<in> set (step a)}\<^sup>*}"
    and "i \<in> set seen"
    and "\<forall>a\<in>set seen - set frontier. set (step a) \<subseteq> set seen"
    and "frontier = [] \<or> n + 2 \<le> card (set seen) + fuel"
  shows "set (star_steps step fuel frontier seen) = {k. (i, k) \<in> {(a, b). b \<in> set (step a)}\<^sup>*}"
  using assms(2-)
proof (induction fuel arbitrary: frontier seen)
  case 0
  let ?E = "{(a, b). b \<in> set (step a)}"
  have "card (set seen) \<le> card {k. k \<le> n}"
    using "0.prems"(2) by (intro card_mono) auto
  then have "card (set seen) \<le> n + 1" by simp
  with "0.prems"(5) have f: "frontier = []" by auto
  have closed: "\<forall>a\<in>set seen. set (step a) \<subseteq> set seen" using "0.prems"(4) f by simp
  have "(i, k) \<in> ?E\<^sup>* \<Longrightarrow> k \<in> set seen" for k
    by (induction rule: rtrancl_induct) (use "0.prems"(3) closed in auto)
  with "0.prems"(2) show ?case by auto
next
  case (Suc fuel)
  let ?E = "{(a, b). b \<in> set (step a)}"
  show ?case
  proof (cases "frontier = []")
    case True
    have closed: "\<forall>a\<in>set seen. set (step a) \<subseteq> set seen" using Suc.prems(4) True by simp
    have "(i, k) \<in> ?E\<^sup>* \<Longrightarrow> k \<in> set seen" for k
      by (induction rule: rtrancl_induct) (use Suc.prems(3) closed in auto)
    with Suc.prems(2) True show ?thesis by auto
  next
    case False
    define new where "new = filter (\<lambda>j. j \<notin> set seen) (remdups (concat (map step frontier)))"
    have new: "set new = (\<Union>a\<in>set frontier. set (step a)) - set seen"
      by (auto simp: new_def)
    have 1: "set new \<subseteq> set (seen @ new)" by simp
    have 2: "set (seen @ new) \<subseteq> {k. k \<le> n \<and> (i, k) \<in> ?E\<^sup>*}"
    proof -
      have "b \<le> n \<and> (i, b) \<in> ?E\<^sup>*" if "a \<in> set frontier" "b \<in> set (step a)" for a b
      proof -
        from that(1) Suc.prems(1,2) have a: "a \<le> n" "(i, a) \<in> ?E\<^sup>*" by auto
        from bounded [OF a(1) that(2)] a(2) that(2) show ?thesis
          by (auto intro: rtrancl_into_rtrancl)
      qed
      with Suc.prems(2) show ?thesis by (auto simp: new)
    qed
    have 3: "i \<in> set (seen @ new)" using Suc.prems(3) by simp
    have 4: "\<forall>a\<in>set (seen @ new) - set new. set (step a) \<subseteq> set (seen @ new)"
    proof
      fix a assume "a \<in> set (seen @ new) - set new"
      then have a: "a \<in> set seen" by auto
      show "set (step a) \<subseteq> set (seen @ new)"
      proof (cases "a \<in> set frontier")
        case True
        then show ?thesis by (auto simp: new)
      next
        case False
        with a Suc.prems(4) show ?thesis by auto
      qed
    qed
    have 5: "new = [] \<or> n + 2 \<le> card (set (seen @ new)) + fuel"
    proof (cases "new = []")
      case True
      then show ?thesis by simp
    next
      case ne: False
      have disj: "set seen \<inter> set new = {}" by (auto simp: new)
      have "card (set (seen @ new)) = card (set seen) + card (set new)"
        using disj by (simp add: card_Un_disjoint)
      moreover have "0 < card (set new)" using ne by (simp add: card_gt_0_iff)
      moreover have "n + 2 \<le> card (set seen) + Suc fuel" using Suc.prems(5) False by simp
      ultimately show ?thesis by simp
    qed
    from Suc.IH [OF 1 2 3 4 5] False show ?thesis
      by (simp add: new_def Let_def)
  qed
qed

lemma star_matches_iff:
  assumes "\<And>i j. i \<le> length s \<Longrightarrow> (j \<in> set (step i)) = rmatches s a i j"
    and "i \<le> length s"
  shows "((i, k) \<in> {(x, y). y \<in> set (step x)}\<^sup>*) = rmatches s (Star a) i k"
proof
  assume "(i, k) \<in> {(x, y). y \<in> set (step x)}\<^sup>*"
  then show "rmatches s (Star a) i k"
    using assms(2)
  proof (induction rule: converse_rtrancl_induct)
    case base
    show ?case by (rule m_StarNil)
  next
    case (step x y)
    from step.hyps(1) step.prems assms(1) have xy: "rmatches s a x y" by simp
    with rmatches_bounds step.prems have "y \<le> length s" by blast
    from m_StarStep [OF xy step.IH [OF this]] show ?case .
  qed
next
  assume "rmatches s (Star a) i k"
  then show "(i, k) \<in> {(x, y). y \<in> set (step x)}\<^sup>*"
    using assms(2)
  proof (induction "Star a" i k rule: rmatches.induct)
    case (m_StarNil i)
    show ?case by simp
  next
    case (m_StarStep i j k)
    from m_StarStep.hyps(1) m_StarStep.prems assms(1) have "j \<in> set (step i)" by simp
    moreover from rmatches_bounds [OF m_StarStep.hyps(1) m_StarStep.prems]
    have "j \<le> length s" by simp
    ultimately show ?case using m_StarStep.hyps(4) by (auto intro: converse_rtrancl_into_rtrancl)
  qed
qed


lemma ends_iff_rmatches:
  "i \<le> length s \<Longrightarrow> (j \<in> set (ends r s i)) = rmatches s r i j"
proof (induction r arbitrary: i j)
  case (Chr cls)
  then show ?case by (auto intro: rmatches.intros elim: rmatches_ChrE)
next
  case Bol
  then show ?case by (auto intro: rmatches.intros elim: rmatches_BolE)
next
  case Eol
  then show ?case by (auto intro: rmatches.intros elim: rmatches_EolE)
next
  case WordB
  then show ?case by (auto intro: rmatches.intros elim: rmatches_WordBE)
next
  case Eps
  then show ?case by (auto intro: rmatches.intros elim: rmatches_EpsE)
next
  case (Seq a b)
  show ?case
  proof
    assume "j \<in> set (ends (Seq a b) s i)"
    then obtain m where m: "m \<in> set (ends a s i)" "j \<in> set (ends b s m)" by auto
    from m(1) Seq.IH(1) [OF Seq.prems] have am: "rmatches s a i m" by simp
    with rmatches_bounds Seq.prems have "m \<le> length s" by blast
    with m(2) Seq.IH(2) have "rmatches s b m j" by simp
    with am show "rmatches s (Seq a b) i j" by (rule m_Seq)
  next
    assume "rmatches s (Seq a b) i j"
    then obtain m where am: "rmatches s a i m" and bm: "rmatches s b m j"
      by (rule rmatches_SeqE)
    from rmatches_bounds [OF am Seq.prems] have "m \<le> length s" by simp
    with bm Seq.IH(2) have "j \<in> set (ends b s m)" by simp
    moreover from am Seq.IH(1) [OF Seq.prems] have "m \<in> set (ends a s i)" by simp
    ultimately show "j \<in> set (ends (Seq a b) s i)" by auto
  qed
next
  case (Alt a b)
  then show ?case by (auto intro: rmatches.intros elim: rmatches_AltE)
next
  case (Star a)
  let ?step = "ends a s"
  let ?E = "{(x, y). y \<in> set (?step x)}"
  have bounded: "b \<le> length s" if "x \<le> length s" "b \<in> set (?step x)" for x b
    using that Star.IH rmatches_bounds by blast
  have "set (star_steps ?step (Suc (length s)) [i] [i]) = {k. (i, k) \<in> ?E\<^sup>*}"
    by (rule star_steps_closure [where n = "length s"]) (use bounded Star.prems in auto)
  moreover have "((i, j) \<in> ?E\<^sup>*) = rmatches s (Star a) i j"
    by (rule star_matches_iff) (use Star.IH Star.prems in auto)
  ultimately show ?case by simp
qed

lemma search_iff:
  "search r s = (\<exists>i j. i \<le> length s \<and> rmatches s r i j)"
proof -
  have ne: "(ends r s i \<noteq> []) = (\<exists>j. j \<in> set (ends r s i))" for i
    by (cases "ends r s i") auto
  have "search r s = (\<exists>i\<le>length s. \<exists>j. j \<in> set (ends r s i))"
    unfolding search_def ne Bex_def set_upt atLeastLessThan_iff less_Suc_eq_le by blast
  also have "\<dots> = (\<exists>i j. i \<le> length s \<and> rmatches s r i j)"
    using ends_iff_rmatches [of _ s _ r] by blast
  finally show ?thesis .
qed

section \<open>The heading detector\<close>

lemma star_chr_forward:
  "rmatches s r i j \<Longrightarrow> r = Star (Chr cls) \<Longrightarrow>
     i \<le> j \<and> (i = j \<or> j \<le> length s) \<and> (\<forall>k. i \<le> k \<and> k < j \<longrightarrow> class_matches cls (s ! k))"
proof (induction rule: rmatches.induct)
  case (m_StarStep a i j k)
  from m_StarStep.prems have a: "a = Chr cls" by simp
  from m_StarStep.hyps(1) have ij: "i < length s" "class_matches cls (s ! i)" "j = Suc i"
    unfolding a by (auto elim: rmatches_ChrE)
  from m_StarStep.IH(2) [OF m_StarStep.prems]
  have jk: "j \<le> k" "j = k \<or> k \<le> length s" "\<forall>m. j \<le> m \<and> m < k \<longrightarrow> class_matches cls (s ! m)"
    by simp_all
  show ?case
  proof (intro conjI allI impI)
    show "i \<le> k" using ij jk by simp
    show "i = k \<or> k \<le> length s" using ij jk by auto
    fix m assume "i \<le> m \<and> m < k"
    then show "class_matches cls (s ! m)"
      using ij jk(3) by (cases "m = i") auto
  qed
qed auto

lemma star_chr_backward:
  "j \<le> length s \<Longrightarrow> i \<le> j \<Longrightarrow> \<forall>k. i \<le> k \<and> k < j \<longrightarrow> class_matches cls (s ! k) \<Longrightarrow>
     rmatches s (Star (Chr cls)) i j"
proof (induction "j - i" arbitrary: i)
  case 0
  then have "i = j" by simp
  then show ?case by (simp add: m_StarNil)
next
  case (Suc d)
  then have lt: "i < j" by simp
  with Suc.prems have "rmatches s (Chr cls) i (Suc i)" by (intro m_Chr) auto
  moreover have "rmatches s (Star (Chr cls)) (Suc i) j"
    using Suc.hyps(2) Suc.prems lt by (intro Suc.hyps(1)) auto
  ultimately show ?case by (rule m_StarStep)
qed

text \<open>\<^verbatim>\<open>re.fullmatch\<close> of a class with \<^verbatim>\<open>+\<close>: the string is not empty and all its
  characters are in the class.\<close>

lemma fullmatch_plus_chr:
  "fullmatch (Plus (Chr cls)) s = (s \<noteq> [] \<and> (\<forall>c\<in>set s. class_matches cls c))"
proof -
  have "fullmatch (Plus (Chr cls)) s = rmatches s (Seq (Chr cls) (Star (Chr cls))) 0 (length s)"
    by (simp only: fullmatch_def Plus_def ends_iff_rmatches [OF le0])
  also have "\<dots> = (s \<noteq> [] \<and> (\<forall>c\<in>set s. class_matches cls c))"
  proof
    assume "rmatches s (Seq (Chr cls) (Star (Chr cls))) 0 (length s)"
    then obtain m where "rmatches s (Chr cls) 0 m" "rmatches s (Star (Chr cls)) m (length s)"
      by (rule rmatches_SeqE)
    then have 0: "0 < length s" "class_matches cls (s ! 0)"
      and st: "rmatches s (Star (Chr cls)) (Suc 0) (length s)"
      by (auto elim: rmatches_ChrE)
    from star_chr_forward [OF st refl]
    have "\<forall>k. Suc 0 \<le> k \<and> k < length s \<longrightarrow> class_matches cls (s ! k)" by simp
    with 0 have "\<forall>k<length s. class_matches cls (s ! k)"
      by (metis Suc_leI neq0_conv)
    with 0 show "s \<noteq> [] \<and> (\<forall>c\<in>set s. class_matches cls c)"
      by (auto simp: in_set_conv_nth)
  next
    assume a: "s \<noteq> [] \<and> (\<forall>c\<in>set s. class_matches cls c)"
    then have "rmatches s (Chr cls) 0 (Suc 0)" by (intro m_Chr) auto
    moreover have "rmatches s (Star (Chr cls)) (Suc 0) (length s)"
      using a by (intro star_chr_backward) (auto simp: Suc_le_eq)
    ultimately show "rmatches s (Seq (Chr cls) (Star (Chr cls))) 0 (length s)" by (rule m_Seq)
  qed
  finally show ?thesis .
qed

lemma fl_06_value: "fl (6 / 10) = 5404319552844595 / 2 ^ 53"
  by code_simp

text \<open>For up to 120 words the float test \<^verbatim>\<open>caps / len(words) > 0.6\<close> is the exact test
  "more than 60%".\<close>

lemma ratio_above_06:
  assumes "0 \<le> c" "c \<le> n" "1 \<le> n" "n \<le> 120"
  shows "(fl (6 / 10) < truediv c n) = (3 * n < 5 * c)"
proof
  assume gt: "fl (6 / 10) < truediv c n"
  show "3 * n < 5 * c"
  proof (rule ccontr)
    assume "\<not> 3 * n < 5 * c"
    then have "5 * c \<le> 3 * n" by simp
    then have "(of_int (5 * c) :: rat) \<le> of_int (3 * n)" by (simp only: of_int_le_iff)
    then have "(of_int c :: rat) / of_int n \<le> 6 / 10" using assms(3) by (simp add: field_simps)
    moreover have "(0::rat) \<le> of_int c / of_int n" using assms by simp
    ultimately have "truediv c n \<le> fl (6 / 10)" unfolding truediv_def by (intro fl_mono)
    with gt show False by simp
  qed
next
  assume lt: "3 * n < 5 * c"
  define x where "x = (of_int c :: rat) / of_int n"
  have n: "(0::rat) < of_int n" "(of_int n :: rat) \<le> 120" using assms by simp_all
  have "3 * n + 1 \<le> 5 * c" using lt by simp
  then have "(of_int (3 * n + 1) :: rat) \<le> of_int (5 * c)" by (simp only: of_int_le_iff)
  then have "(3 * of_int n + 1 :: rat) \<le> 5 * of_int c" by simp
  then have "(3 * of_int n + 1) / (5 * of_int n) \<le> (5 * of_int c) / (5 * of_int n :: rat)"
    using n by (intro divide_right_mono) simp_all
  moreover have "(3 * of_int n + 1) / (5 * of_int n) = 3 / 5 + 1 / (5 * of_int n :: rat)"
    using n by (simp add: add_divide_distrib)
  moreover have "(5 * of_int c) / (5 * of_int n :: rat) = x" unfolding x_def by simp
  ultimately have "3 / 5 + 1 / (5 * of_int n) \<le> x" by simp
  moreover have "1 / 600 \<le> 1 / (5 * (of_int n :: rat))"
    using n by (simp add: field_simps)
  ultimately have x1: "3 / 5 + 1 / 600 \<le> x" by linarith
  have "(of_int c :: rat) \<le> of_int n" using assms(2) by simp
  then have x2: "x \<le> 1" using n unfolding x_def by simp
  have x0: "0 < x" using x1 by linarith
  from fl_error [OF x0] have "x - x / 2 ^ 53 \<le> fl x" by linarith
  moreover have "x / 2 ^ 53 \<le> 1 / 2 ^ 53" using x2 by (simp add: divide_right_mono)
  moreover have "(1::rat) / 2 ^ 53 < 1 / 600" by simp
  ultimately have "3 / 5 < fl x" using x1 by linarith
  moreover have "fl (6 / 10) \<le> 3 / 5" unfolding fl_06_value by simp
  ultimately show "fl (6 / 10) < truediv c n" unfolding truediv_def x_def by simp
qed

lemma length_split_ws: "length (split_ws s) \<le> length s"
proof (induction s rule: split_ws.induct)
  case (1 s)
  show ?case
  proof (cases "dropWhile isspace s")
    case Nil
    have "split_ws s = []" by (simp only: split_ws.simps [of s] Nil list.case)
    then show ?thesis by simp
  next
    case (Cons c cs)
    have "length (c # cs) \<le> length s" using length_dropWhile_le [of isspace s] Cons by simp
    moreover have "length (dropWhile (\<lambda>x. \<not> isspace x) cs) \<le> length cs"
      by (rule length_dropWhile_le)
    moreover from 1 [OF Cons]
    have "length (split_ws (dropWhile (\<lambda>x. \<not> isspace x) cs))
        \<le> length (dropWhile (\<lambda>x. \<not> isspace x) cs)" .
    moreover have "split_ws s = takeWhile (\<lambda>x. \<not> isspace x) (c # cs)
        # split_ws (dropWhile (\<lambda>x. \<not> isspace x) cs)"
      by (simp only: split_ws.simps [of s] Cons list.case)
    ultimately show ?thesis by simp
  qed
qed

text \<open>The function is the disjunction of its enumerator pattern and the second and third
  heuristic as the specification words them, and a line that satisfies a heuristic of the
  specification is a heading for the function.\<close>

lemma is_heading_line_iff:
  "is_heading_line line =
     (search SECTION_HEADING_PATTERN line \<or> spec_all_caps line \<or> spec_title_case line)"
proof -
  let ?s = "strip line"
  let ?w = "split_ws ?s"
  let ?c = "length (filter (\<lambda>w. isupper (hd w)) ?w)"
  have caps: "(if 8 \<le> length ?s then fullmatch (Plus (Chr CapsClass)) ?s else False)
      = spec_all_caps line"
    by (auto simp: spec_all_caps_def fullmatch_plus_chr list_all_iff)
  have title: "(if length ?s \<le> 120 then
          (if (if 2 \<le> length ?w
               then fl (6 / 10) < truediv (int ?c) (max 1 (int (length ?w))) else False)
           then True else False)
        else False) = spec_title_case line"
  proof (cases "length ?s \<le> 120 \<and> 2 \<le> length ?w")
    case False
    then show ?thesis by (auto simp: spec_title_case_def Let_def)
  next
    case True
    have "length ?w \<le> length ?s" by (rule length_split_ws)
    with True have n: "1 \<le> int (length ?w)" "int (length ?w) \<le> 120" by simp_all
    have c: "0 \<le> int ?c" "int ?c \<le> int (length ?w)" by simp_all
    have m: "max 1 (int (length ?w)) = int (length ?w)" using n by simp
    from ratio_above_06 [OF c n] True show ?thesis
      unfolding m by (simp add: spec_title_case_def Let_def)
  qed
  show ?thesis
    unfolding is_heading_line_def Let_def caps title by simp
qed

lemma rmatches_Seqs_Cons:
  "rs \<noteq> [] \<Longrightarrow> rmatches s (Seqs (r # rs)) i j = (\<exists>m. rmatches s r i m \<and> rmatches s (Seqs rs) m j)"
  by (cases rs) (auto intro: rmatches.intros elim: rmatches_SeqE)

lemma spec_enumerator_imp:
  assumes "spec_enumerator line"
  shows "search SECTION_HEADING_PATTERN line"
proof -
  have up: "rmatches line (Chr LetterNoCase) i j" if "rmatches line (Chr CapitalAZ) i j" for i j
    using that
    by (auto elim!: rmatches_ChrE intro!: m_Chr simp: is_ascii_upper_def ascii_letter_def Let_def)
  have "rmatches line SECTION_HEADING_PATTERN i j"
    if "rmatches line (Seqs [Bol, Star ws, section_number, Plus ws, Chr CapitalAZ,
                   Star (Chr NotNewline), Eol]) i j" for i j
    using that unfolding SECTION_HEADING_PATTERN_def Seqs.simps
    by (elim rmatches_SeqE) (blast intro: m_Seq up)
  with assms show ?thesis
    unfolding spec_enumerator_def search_iff by blast
qed

lemma spec_is_heading_imp: "spec_is_heading line \<Longrightarrow> is_heading_line line"
  unfolding is_heading_line_iff spec_is_heading_def using spec_enumerator_imp by blast

text \<open>
  \<^bold>\<open>Claim C2\<close> says that \<^verbatim>\<open>is_heading\<close> holds exactly when one of the three heuristics of
  the specification does, the enumerator heuristic asking for a capitalized word after the
  section number. The pattern is compiled with the flag \<^verbatim>\<open>(?i)\<close>, under which its class
  \<^verbatim>\<open>[A-Z]\<close> accepts a small letter too: the line \<^verbatim>\<open>Section 1 abc\<close> is a heading for the
  code, and none of the three heuristics holds for it.
\<close>

theorem is_heading_line_small_letter:
  "is_heading_line ''Section 1 abc'' \<and> \<not> spec_is_heading ''Section 1 abc''"
  by code_simp

section \<open>The line-window extractor\<close>

lemma scan_lines_eq:
  "map_of results canonical = Some found \<Longrightarrow>
   scan_lines pattern lines hidx mx canonical items results =
     Inr (AList.update canonical
            (found @ map (\<lambda>(line_index, line). line_section lines hidx mx canonical line_index)
                         (matching_items pattern items))
            results)"
proof (induction items arbitrary: results found)
  case Nil
  then show ?case by (simp add: matching_items_def update_triv)
next
  case (Cons item items)
  obtain line_index line where item: "item = (line_index, line)" by (cases item)
  show ?case
  proof (cases "strip line \<noteq> [] \<and> search pattern line")
    case False
    with Cons show ?thesis by (auto simp: item matching_items_def)
  next
    case True
    let ?found = "found @ [line_section lines hidx mx canonical line_index]"
    let ?results = "AList.update canonical ?found results"
    have "map_of ?results canonical = Some ?found" by (simp add: update_conv')
    from Cons.IH [OF this] True Cons.prems show ?thesis
      by (simp add: item matching_items_def)
  qed
qed

lemma scan_targets_eq:
  assumes "distinct (map fst compiled)"
    and "\<forall>(canonical, pattern)\<in>set compiled. map_of results canonical = Some []"
  shows "\<exists>res. scan_targets lines hidx mx compiled results = Inr res \<and>
           fst ` set res = fst ` set results \<and>
           (distinct (map fst results) \<longrightarrow> distinct (map fst res)) \<and>
           (\<forall>k. map_of res k =
              (case map_of compiled k of
                 None \<Rightarrow> map_of results k
               | Some pattern \<Rightarrow> Some (target_sections lines hidx mx k pattern)))"
  using assms
proof (induction compiled arbitrary: results)
  case Nil
  then show ?case by simp
next
  case (Cons cp compiled)
  obtain c p where cp: "cp = (c, p)" by (cases cp)
  let ?new = "target_sections lines hidx mx c p"
  let ?results = "AList.update c ?new results"
  from Cons.prems(2) have here: "map_of results c = Some []" by (simp add: cp)
  from scan_lines_eq [OF here]
  have sl: "scan_lines p lines hidx mx c (enumerate_lines lines) results = Inr ?results"
    by (simp add: target_sections_def)
  from Cons.prems(1) have d: "distinct (map fst compiled)" and notin: "c \<notin> fst ` set compiled"
    by (simp_all add: cp)
  have "\<forall>(canonical, pattern)\<in>set compiled. map_of ?results canonical = Some []"
  proof clarify
    fix a b assume ab: "(a, b) \<in> set compiled"
    with notin have "a \<noteq> c" by force
    moreover from Cons.prems(2) ab have "map_of results a = Some []" by (auto simp: cp)
    ultimately show "map_of ?results a = Some []" by (simp add: update_conv')
  qed
  from Cons.IH [OF d this] obtain res where
    res: "scan_targets lines hidx mx compiled ?results = Inr res"
      "fst ` set res = fst ` set ?results"
      "distinct (map fst ?results) \<longrightarrow> distinct (map fst res)"
      "\<forall>k. map_of res k =
         (case map_of compiled k of
            None \<Rightarrow> map_of ?results k
          | Some pattern \<Rightarrow> Some (target_sections lines hidx mx k pattern))"
    by blast
  have keys: "fst ` set ?results = fst ` set results"
    using here by (auto simp: dom_update dest: map_of_SomeD intro: rev_image_eqI)
  have none: "map_of compiled c = None" using notin by (simp add: map_of_eq_None_iff)
  have "\<forall>k. map_of res k =
         (case map_of (cp # compiled) k of
            None \<Rightarrow> map_of results k
          | Some pattern \<Rightarrow> Some (target_sections lines hidx mx k pattern))"
    using res(4) none by (auto simp: cp update_conv' split: option.splits)
  with res(1,2,3) keys sl show ?case
    by (simp add: cp distinct_update)
qed


lemma build_target_regexes_from_props:
  "distinct (map fst compiled) \<Longrightarrow>
     distinct (map fst (build_target_regexes_from compiled targets)) \<and>
     fst ` set (build_target_regexes_from compiled targets) =
       fst ` set compiled \<union> normalize_target ` set targets"
proof (induction targets arbitrary: compiled)
  case Nil
  then show ?case by simp
next
  case (Cons raw targets)
  let ?c = "AList.update (normalize_target raw)
      (target_pattern (synonyms_for (normalize_target raw))) compiled"
  have "distinct (map fst ?c)" using Cons.prems by (rule distinct_update)
  from Cons.IH [OF this] show ?case by (auto simp: Let_def dom_update)
qed

lemma empty_results_from_props:
  "distinct (map fst results) \<Longrightarrow>
     distinct (map fst (empty_results_from results targets)) \<and>
     fst ` set (empty_results_from results targets) =
       fst ` set results \<union> normalize_target ` set targets \<and>
     (\<forall>k. map_of (empty_results_from results targets) k =
        (if k \<in> normalize_target ` set targets then Some [] else map_of results k))"
proof (induction targets arbitrary: results)
  case Nil
  then show ?case by simp
next
  case (Cons t targets)
  let ?r = "AList.update (normalize_target t) [] results"
  have "distinct (map fst ?r)" using Cons.prems by (rule distinct_update)
  from Cons.IH [OF this] show ?case by (auto simp: dom_update update_conv')
qed

lemma extract_covenants_from_text_eq:
  "\<exists>res. extract_covenants_from_text text targets mx = Inr res \<and>
     distinct (map fst res) \<and>
     fst ` set res = normalize_target ` set targets \<and>
     (\<forall>(canonical, found)\<in>set res. \<exists>pattern.
        found = target_sections (split_lines text) (find_heading_indices (split_lines text))
                  mx canonical pattern)"
proof -
  let ?compiled = "build_target_regexes targets"
  let ?results = "empty_results_from [] targets"
  let ?lines = "split_lines text"
  let ?hidx = "find_heading_indices ?lines"
  have c: "distinct (map fst ?compiled)" "fst ` set ?compiled = normalize_target ` set targets"
    using build_target_regexes_from_props [of "[]" targets]
    by (simp_all add: build_target_regexes_def)
  have r: "distinct (map fst ?results)" "fst ` set ?results = normalize_target ` set targets"
    "\<forall>k. map_of ?results k = (if k \<in> normalize_target ` set targets then Some [] else None)"
    using empty_results_from_props [of "[]" targets] by simp_all
  have "\<forall>(canonical, pattern)\<in>set ?compiled. map_of ?results canonical = Some []"
  proof clarify
    fix a b assume "(a, b) \<in> set ?compiled"
    then have "a \<in> fst ` set ?compiled" by force
    with c(2) r(3) show "map_of ?results a = Some []" by simp
  qed
  from scan_targets_eq [OF c(1) this, of ?lines ?hidx mx] obtain res where
    res: "scan_targets ?lines ?hidx mx ?compiled ?results = Inr res"
      "fst ` set res = fst ` set ?results"
      "distinct (map fst ?results) \<longrightarrow> distinct (map fst res)"
      "\<forall>k. map_of res k =
         (case map_of ?compiled k of
            None \<Rightarrow> map_of ?results k
          | Some pattern \<Rightarrow> Some (target_sections ?lines ?hidx mx k pattern))"
    by blast
  have d: "distinct (map fst res)" using res(3) r(1) by simp
  have each: "\<exists>pattern. found = target_sections ?lines ?hidx mx canonical pattern"
    if "(canonical, found) \<in> set res" for canonical found
  proof -
    from that d have m: "map_of res canonical = Some found" by simp
    from that have "canonical \<in> fst ` set res" by force
    with res(2) r(2) c(2) have "canonical \<in> fst ` set ?compiled" by simp
    then obtain pattern where "(canonical, pattern) \<in> set ?compiled" by force
    with c(1) have "map_of ?compiled canonical = Some pattern" by (rule map_of_is_SomeI)
    with res(4) m show ?thesis by (auto split: option.splits)
  qed
  have e: "extract_covenants_from_text text targets mx = Inr res"
    unfolding extract_covenants_from_text_def Let_def by (rule res(1))
  have k: "fst ` set res = normalize_target ` set targets" using res(2) r(2) by simp
  have all: "\<forall>(canonical, found)\<in>set res. \<exists>pattern.
        found = target_sections ?lines ?hidx mx canonical pattern"
  proof (rule ballI)
    fix x assume x: "x \<in> set res"
    obtain canonical found where cf: "x = (canonical, found)" by (cases x)
    from each [of canonical found] x cf
    show "case x of (canonical, found) \<Rightarrow> \<exists>pattern.
        found = target_sections ?lines ?hidx mx canonical pattern"
      by simp
  qed
  show ?thesis by (intro exI [of _ res] conjI e d k all)
qed

lemma start_line_line_section:
  "start_line (line_section lines hidx mx canonical i) = int i + 1"
  by (simp add: line_section_def find_section_bounds_def Let_def)

lemma enumerate_lines_fst_sorted:
  "sorted_wrt (\<lambda>x y. fst x < fst y) (enumerate_lines lines)"
proof -
  have "sorted_wrt (<) (map fst (enumerate_lines lines))"
    by (simp add: enumerate_lines_def)
  then show ?thesis by (simp add: sorted_wrt_map)
qed

lemma target_sections_ascending:
  "sorted_wrt (<) (map start_line (target_sections lines hidx mx canonical pattern))"
proof -
  have "sorted_wrt (\<lambda>x y. fst x < fst y) (matching_items pattern (enumerate_lines lines))"
    unfolding matching_items_def
    by (rule sorted_wrt_filter) (rule enumerate_lines_fst_sorted)
  then have "sorted_wrt (\<lambda>x y. start_line (line_section lines hidx mx canonical (fst x))
      < start_line (line_section lines hidx mx canonical (fst y)))
      (matching_items pattern (enumerate_lines lines))"
    by (rule sorted_wrt_mono_rel [rotated]) (simp add: start_line_line_section)
  then show ?thesis
    by (simp only: target_sections_def sorted_wrt_map case_prod_unfold list.map_comp comp_def)
qed

lemma next_heading_bound_ge:
  "start_index \<le> end_index \<Longrightarrow> start_index \<le> next_heading_bound hidx start_index end_index"
  by (induction hidx) auto

lemma line_section_bounds:
  assumes "i < length lines" "0 \<le> mx"
  shows "start_line (line_section lines hidx mx canonical i)
       \<le> end_line (line_section lines hidx mx canonical i)"
proof -
  have "int i \<le> min (int (length lines) - 1) (int i + mx)" using assms by simp
  from next_heading_bound_ge [OF this, of hidx] show ?thesis
    by (simp add: line_section_def find_section_bounds_def Let_def)
qed

lemma target_sections_bounds:
  assumes "0 \<le> mx" "s \<in> set (target_sections lines hidx mx canonical pattern)"
  shows "start_line s \<le> end_line s"
proof -
  from assms(2) obtain i l where il: "(i, l) \<in> set (enumerate_lines lines)"
    and s: "s = line_section lines hidx mx canonical i"
    by (auto simp: target_sections_def matching_items_def)
  from il have "i < length lines" by (auto simp: enumerate_lines_def dest: set_zip_leftD)
  from line_section_bounds [OF this assms(1)] s show ?thesis by simp
qed

text \<open>
  \<^bold>\<open>Claim C10.\<close> In the line-window extractor, for every text, target list and
  \<^verbatim>\<open>max_section_lines\<close>, \<^verbatim>\<open>extract_covenants_from_text\<close> returns a mapping, and each
  per-target list in it is ordered by strictly increasing \<^verbatim>\<open>start_line\<close>.
\<close>

theorem sections_ascending:
  "\<exists>res. extract_covenants_from_text text targets max_section_lines = Inr res \<and>
     (\<forall>(canonical, found)\<in>set res. sorted_wrt (<) (map start_line found))"
proof -
  from extract_covenants_from_text_eq [of "text" targets max_section_lines]
  obtain res where res: "extract_covenants_from_text text targets max_section_lines = Inr res"
    and each: "\<forall>(canonical, found)\<in>set res. \<exists>pattern.
        found = target_sections (split_lines text) (find_heading_indices (split_lines text))
                  max_section_lines canonical pattern"
    by blast
  have "sorted_wrt (<) (map start_line found)" if "(canonical, found) \<in> set res"
    for canonical found
  proof -
    from each that obtain pattern where
      "found = target_sections (split_lines text) (find_heading_indices (split_lines text))
                  max_section_lines canonical pattern"
      by blast
    then show ?thesis by (simp only: target_sections_ascending)
  qed
  with res show ?thesis by blast
qed


theorem sections_ascending_witness:
  "extract_covenants_from_text example_two_text [''restricted payments''] 120 =
     Inr [(''restricted payments'',
       [\<lparr>ls_target = ''restricted payments'', ls_title = ''Restricted payments'',
          start_line = 1, end_line = 3, ls_text = example_two_text\<rparr>,
        \<lparr>ls_target = ''restricted payments'', ls_title = ''restricted payment covenants'',
          start_line = 3, end_line = 3, ls_text = ''restricted payment covenants''\<rparr>])] \<and>
   sorted_wrt (<) (map start_line (snd (hd (projr
     (extract_covenants_from_text example_two_text [''restricted payments''] 120)))))"
proof -
  have ev: "extract_covenants_from_text example_two_text [''restricted payments''] 120 =
     Inr [(''restricted payments'',
       [\<lparr>ls_target = ''restricted payments'', ls_title = ''Restricted payments'',
          start_line = 1, end_line = 3, ls_text = example_two_text\<rparr>,
        \<lparr>ls_target = ''restricted payments'', ls_title = ''restricted payment covenants'',
          start_line = 3, end_line = 3, ls_text = ''restricted payment covenants''\<rparr>])]"
    by code_simp
  from sections_ascending [of example_two_text "[''restricted payments'']" 120]
  show ?thesis unfolding ev by simp
qed

text \<open>Without a heading line the window of a match at index \<open>i\<close> ends at line
  \<open>start_line + max_section_lines\<close> or at the last line, whichever comes first.\<close>

lemma window_end_line:
  "0 \<le> mx \<Longrightarrow>
     end_line (line_section lines [] mx canonical i)
       = min (int (length lines)) (start_line (line_section lines [] mx canonical i) + mx)"
  by (simp add: line_section_def find_section_bounds_def Let_def)

text \<open>
  \<^bold>\<open>Claim C3\<close> says that without heading lines and with one matching line the single section
  ends at \<open>start + max_section_lines - 1\<close> (or at the last line). In the three-line
  example no line is a heading, only the first line matches, and with
  \<^verbatim>\<open>max_section_lines = 1\<close> the section runs from line 1 to line 2: it ends at
  \<open>start + max_section_lines\<close> and spans two lines.
\<close>

theorem window_one_line_too_long:
  "find_heading_indices (split_lines example_lines_text) = [] \<and>
   matching_items (target_pattern (synonyms_for ''restricted payments''))
     (enumerate_lines (split_lines example_lines_text)) = [(0, ''restricted payments'')] \<and>
   extract_covenants_from_text example_lines_text [''restricted payments''] 1 =
     Inr [(''restricted payments'',
       [\<lparr>ls_target = ''restricted payments'', ls_title = ''restricted payments'',
          start_line = 1, end_line = 2,
          ls_text = ''restricted payments'' @ [CHR 0x0A] @ ''a''\<rparr>])]"
  by code_simp

text \<open>A negative \<^verbatim>\<open>max_section_lines\<close> puts the end before the start.\<close>

theorem negative_window_counterexample:
  "extract_covenants_from_text example_lines_text [''restricted payments''] (- 1) =
     Inr [(''restricted payments'',
       [\<lparr>ls_target = ''restricted payments'', ls_title = ''restricted payments'',
          start_line = 1, end_line = 0, ls_text = []\<rparr>])] \<and>
   end_line (hd (snd (hd (projr
     (extract_covenants_from_text example_lines_text [''restricted payments''] (- 1))))))
     < start_line (hd (snd (hd (projr
     (extract_covenants_from_text example_lines_text [''restricted payments''] (- 1))))))"
proof -
  have ev: "extract_covenants_from_text example_lines_text [''restricted payments''] (- 1) =
     Inr [(''restricted payments'',
       [\<lparr>ls_target = ''restricted payments'', ls_title = ''restricted payments'',
          start_line = 1, end_line = 0, ls_text = []\<rparr>])]"
    by code_simp
  show ?thesis unfolding ev by simp
qed

section \<open>Positions and confidences of the sections\<close>

text \<open>
  \<^bold>\<open>Claim C7\<close>, amended. Every section that the span-based extractor produces has
  \<^verbatim>\<open>end_pos >= start_pos\<close> and a confidence in \<open>[0, 1]\<close>; every section that the line-window
  extractor produces has \<^verbatim>\<open>end_line >= start_line\<close>, provided that \<^verbatim>\<open>max_section_lines\<close>
  is not negative.
\<close>

theorem section_positions_ordered:
  "(0 \<le> max_section_lines \<longrightarrow>
      (\<exists>res. extract_covenants_from_text text targets max_section_lines = Inr res \<and>
         (\<forall>(canonical, found)\<in>set res. \<forall>s\<in>set found. start_line s \<le> end_line s))) \<and>
   (\<forall>s\<in>set (extract_sections fi document).
      start_pos s \<le> end_pos s \<and> 0 \<le> confidence s \<and> confidence s \<le> 1) \<and>
   (\<forall>secs. extract_by_type fi document covenant_type = Inr secs \<longrightarrow>
      (\<forall>s\<in>set secs. start_pos s \<le> end_pos s \<and> 0 \<le> confidence s \<and> confidence s \<le> 1))"
proof (intro conjI impI allI ballI)
  assume mx: "0 \<le> max_section_lines"
  from extract_covenants_from_text_eq [of "text" targets max_section_lines]
  obtain res where res: "extract_covenants_from_text text targets max_section_lines = Inr res"
    and each: "\<forall>(canonical, found)\<in>set res. \<exists>pattern.
        found = target_sections (split_lines text) (find_heading_indices (split_lines text))
                  max_section_lines canonical pattern"
    by blast
  have "start_line s \<le> end_line s"
    if "(canonical, found) \<in> set res" "s \<in> set found" for canonical found s
  proof -
    from each that(1) obtain pattern where
      "found = target_sections (split_lines text) (find_heading_indices (split_lines text))
                  max_section_lines canonical pattern"
      by blast
    with target_sections_bounds [OF mx] that(2) show ?thesis by blast
  qed
  with res show "\<exists>res. extract_covenants_from_text text targets max_section_lines = Inr res \<and>
         (\<forall>(canonical, found)\<in>set res. \<forall>s\<in>set found. start_line s \<le> end_line s)"
    by blast
next
  fix s assume "s \<in> set (extract_sections fi document)"
  from extract_sections_made [OF this] obtain ct cfg m where
    "make_section fi document ct cfg m = Some s" by blast
  from make_section_props(3,4,5) [OF this]
  show "start_pos s \<le> end_pos s" "0 \<le> confidence s" "confidence s \<le> 1" by simp_all
next
  fix secs s
  assume "extract_by_type fi document covenant_type = Inr secs" "s \<in> set secs"
  from extract_by_type_made [OF this] obtain cfg m where
    "make_section fi document covenant_type cfg m = Some s" by blast
  from make_section_props(3,4,5) [OF this]
  show "start_pos s \<le> end_pos s" "0 \<le> confidence s" "confidence s \<le> 1" by simp_all
qed

theorem section_positions_ordered_witness:
  "(0::int) \<le> 120 \<and>
   extract_covenants_from_text example_lines_text [''restricted payments''] 120 =
     Inr [(''restricted payments'',
       [\<lparr>ls_target = ''restricted payments'', ls_title = ''restricted payments'',
          start_line = 1, end_line = 3, ls_text = example_lines_text\<rparr>])] \<and>
   start_line (hd (snd (hd (projr
     (extract_covenants_from_text example_lines_text [''restricted payments''] 120)))))
     \<le> end_line (hd (snd (hd (projr
     (extract_covenants_from_text example_lines_text [''restricted payments''] 120))))) \<and>
   hd (extract_sections example_finditer example_text)
     \<in> set (extract_sections example_finditer example_text) \<and>
   start_pos (hd (extract_sections example_finditer example_text))
     \<le> end_pos (hd (extract_sections example_finditer example_text)) \<and>
   0 \<le> confidence (hd (extract_sections example_finditer example_text)) \<and>
   confidence (hd (extract_sections example_finditer example_text)) \<le> 1"
proof -
  have ev: "extract_covenants_from_text example_lines_text [''restricted payments''] 120 =
     Inr [(''restricted payments'',
       [\<lparr>ls_target = ''restricted payments'', ls_title = ''restricted payments'',
          start_line = 1, end_line = 3, ls_text = example_lines_text\<rparr>])]"
    by code_simp
  have ne: "extract_sections example_finditer example_text \<noteq> []"
    by code_simp
  then have hd: "hd (extract_sections example_finditer example_text)
      \<in> set (extract_sections example_finditer example_text)"
    by simp
  note inst = section_positions_ordered
    [of 120 example_lines_text "[''restricted payments'']" example_finditer example_text]
  from inst hd have b: "start_pos (hd (extract_sections example_finditer example_text))
     \<le> end_pos (hd (extract_sections example_finditer example_text)) \<and>
   0 \<le> confidence (hd (extract_sections example_finditer example_text)) \<and>
   confidence (hd (extract_sections example_finditer example_text)) \<le> 1"
    by blast
  from inst have a: "start_line (hd (snd (hd (projr
     (extract_covenants_from_text example_lines_text [''restricted payments''] 120)))))
     \<le> end_line (hd (snd (hd (projr
     (extract_covenants_from_text example_lines_text [''restricted payments''] 120)))))"
    unfolding ev by simp
  from a b hd ev show ?thesis by simp
qed

section \<open>The LLM bridge\<close>

text \<open>
  \<^bold>\<open>Claim C8.\<close> For every text, target list, model and token limit, and whatever the import,
  the network and the parser would do: when no credential is configured (no \<^verbatim>\<open>api_key\<close>
  argument and no key in the environment) the LLM bridge returns the empty mapping, does
  not raise, and makes no network call.
\<close>

theorem llm_extract_covenants_no_credential:
  "getenv_OPENAI_API_KEY w = None \<Longrightarrow>
     llm_extract_covenants w text targets model None max_tokens = ([], Inr [])"
  by (simp add: llm_extract_covenants_def)

theorem llm_extract_covenants_no_credential_witness:
  "getenv_OPENAI_API_KEY example_world = None \<and>
   llm_extract_covenants example_world ''Section 5.2 Change of Control''
     [''change of control''] ''gpt-4o-mini'' None 800 = ([], Inr [])"
  using llm_extract_covenants_no_credential
    [of example_world "''Section 5.2 Change of Control''" "[''change of control'']"
        "''gpt-4o-mini''" 800]
  by (simp add: example_world_def)

end
